theory Spec2Isabelle
  imports Main
begin

section \<open>The expression lexer and parser of compilador.py\<close>

text \<open>
  The development embeds the parser path of \<^verbatim>\<open>src/compilador.py\<close>: the regular
  expression \<^verbatim>\<open>TOKEN_RE\<close>, the class \<^verbatim>\<open>Lexer\<close> and the function
  \<^verbatim>\<open>parse_expression\<close> with its three nested functions \<^verbatim>\<open>E\<close>, \<^verbatim>\<open>T\<close> and
  \<^verbatim>\<open>F\<close>.

  A source text is a \<^typ>\<open>string\<close>, that is a list of characters with code points below
  256. On this range Python's \<^verbatim>\<open>\d\<close> matches the ten ASCII digits only and
  \<^verbatim>\<open>\s\<close> matches the code points 9 to 13, 28 to 32, 133 and 160. Python tuples of
  strings are pairs, \<^verbatim>\<open>None\<close> is \<^const>\<open>None\<close>, and an exception is the left
  injection of a sum. The depth of the Python call stack is taken to be unbounded.
\<close>

subsection \<open>Data\<close>

type_synonym token = "string \<times> string"

text \<open>The value of \<^verbatim>\<open>mo.groups()\<close>: the groups \<^verbatim>\<open>(num, ident, other)\<close>.\<close>

type_synonym groups = "string option \<times> string option \<times> string option"

text \<open>
  A tree is a Python tuple: \<^verbatim>\<open>(kind, text)\<close> with kind \<^verbatim>\<open>"NUMBER"\<close> or
  \<^verbatim>\<open>"ID"\<close> for a leaf and \<^verbatim>\<open>("BINOP", op, left, right)\<close> for an operator node.
\<close>

datatype node =
    Leaf string string
  | BINOP string node node

text \<open>
  The three messages of the \<^verbatim>\<open>SyntaxError\<close>s raised by the parser:
  \<^verbatim>\<open>"Faltando ')'"\<close>, \<^verbatim>\<open>f"Token inesperado: {tok}"\<close> and \<^verbatim>\<open>"Entrada extra."\<close>.
  \<^verbatim>\<open>TypeError\<close> is what \<^verbatim>\<open>other in "+-*/()"\<close> raises when \<^verbatim>\<open>other\<close> is
  \<^verbatim>\<open>None\<close>.
\<close>

datatype message =
    Faltando_paren
  | Token_inesperado token
  | Entrada_extra

datatype error =
    SyntaxError message
  | TypeError

record lexer =
  tokens :: "token list"
  pos :: nat

subsection \<open>The regular expression TOKEN_RE\<close>

definition is_digit :: "char \<Rightarrow> bool" where
  "is_digit c = (c \<in> set ''0123456789'')"

definition is_space :: "char \<Rightarrow> bool" where
  "is_space c = (of_char c \<in> set [9, 10, 11, 12, 13, 28, 29, 30, 31, 32, 133, 160 :: nat])"

definition is_id_start :: "char \<Rightarrow> bool" where
  "is_id_start c = (c \<in> set ''ABCDEFGHIJKLMNOPQRSTUVWXYZabcdefghijklmnopqrstuvwxyz_'')"

definition is_id_char :: "char \<Rightarrow> bool" where
  "is_id_char c = (is_id_start c \<or> c \<in> set ''0123456789'')"

text \<open>
  \<^verbatim>\<open>\d+(?:\.\d+)?\<close> at the head of \<open>s\<close>: the longest run of digits, then a dot
  with the longest run of digits after it when there is at least one. The result is the
  matched text and the text after it.
\<close>

definition number_match :: "string \<Rightarrow> (string \<times> string) option" where
  "number_match s =
     (let ds = takeWhile is_digit s; r = dropWhile is_digit s in
      if ds = [] then None
      else (case r of
              [] \<Rightarrow> Some (ds, r)
            | c # r' \<Rightarrow>
                if c = CHR ''.'' \<and> takeWhile is_digit r' \<noteq> []
                then Some (ds @ c # takeWhile is_digit r', dropWhile is_digit r')
                else Some (ds, r)))"

text \<open>\<^verbatim>\<open>[A-Za-z_][A-Za-z0-9_]*\<close> at the head of \<open>s\<close>.\<close>

definition ident_match :: "string \<Rightarrow> (string \<times> string) option" where
  "ident_match s =
     (case s of
        [] \<Rightarrow> None
      | c # cs \<Rightarrow>
          if is_id_start c
          then Some (c # takeWhile is_id_char cs, dropWhile is_id_char cs)
          else None)"

text \<open>\<^verbatim>\<open>.\<close> at the head of \<open>s\<close>: any one character but the line feed.\<close>

definition dot_match :: "string \<Rightarrow> (string \<times> string) option" where
  "dot_match s =
     (case s of
        [] \<Rightarrow> None
      | c # cs \<Rightarrow> if c \<noteq> CHR 0x0A then Some ([c], cs) else None)"

text \<open>The alternation of the three groups, tried from left to right.\<close>

definition alternatives :: "string \<Rightarrow> (groups \<times> string) option" where
  "alternatives s =
     (case number_match s of
        Some (num, rest) \<Rightarrow> Some ((Some num, None, None), rest)
      | None \<Rightarrow>
         (case ident_match s of
            Some (ident, rest) \<Rightarrow> Some ((None, Some ident, None), rest)
          | None \<Rightarrow>
             (case dot_match s of
                Some (other, rest) \<Rightarrow> Some ((None, None, Some other), rest)
              | None \<Rightarrow> None)))"

text \<open>
  \<^verbatim>\<open>TOKEN_RE.match\<close> at the head of \<open>s\<close>. The greedy \<^verbatim>\<open>\s*\<close> first takes one
  more white space character; when the rest of the pattern then fails it gives the
  character back and the alternation is tried where it stands.
\<close>

fun TOKEN_RE_match :: "string \<Rightarrow> (groups \<times> string) option" where
  "TOKEN_RE_match [] = alternatives []"
| "TOKEN_RE_match (c # cs) =
     (if is_space c
      then (case TOKEN_RE_match cs of
              Some m \<Rightarrow> Some m
            | None \<Rightarrow> alternatives (c # cs))
      else alternatives (c # cs))"

lemma number_match_shorter:
  assumes "number_match s = Some (m, rest)"
  shows "length rest < length s"
proof -
  define r where "r = dropWhile is_digit s"
  have nonempty: "takeWhile is_digit s \<noteq> []"
    using assms by (auto simp: number_match_def Let_def split: if_splits)
  then have "s \<noteq> [] \<and> is_digit (hd s)"
    by (cases s) (auto split: if_splits)
  then have lt: "length r < length s"
    unfolding r_def by (cases s) (auto simp: le_imp_less_Suc length_dropWhile_le)
  have m: "(case r of
              [] \<Rightarrow> Some (takeWhile is_digit s, r)
            | c # r' \<Rightarrow>
                if c = CHR ''.'' \<and> takeWhile is_digit r' \<noteq> []
                then Some (takeWhile is_digit s @ c # takeWhile is_digit r',
                           dropWhile is_digit r')
                else Some (takeWhile is_digit s, r)) = Some (m, rest)"
    using assms nonempty unfolding r_def by (simp add: number_match_def Let_def)
  show ?thesis
  proof (cases r)
    case Nil
    then show ?thesis using m lt by simp
  next
    case (Cons c r')
    have "length (dropWhile is_digit r') \<le> length r'"
      by (rule length_dropWhile_le)
    then show ?thesis
      using m lt Cons by (auto split: if_splits)
  qed
qed

lemma ident_match_shorter:
  "ident_match s = Some (m, rest) \<Longrightarrow> length rest < length s"
  by (cases s) (auto simp: ident_match_def le_imp_less_Suc length_dropWhile_le split: if_splits)

lemma dot_match_shorter:
  "dot_match s = Some (m, rest) \<Longrightarrow> length rest < length s"
  by (cases s) (auto simp: dot_match_def split: if_splits)

lemma alternatives_shorter:
  "alternatives s = Some (g, rest) \<Longrightarrow> length rest < length s"
  unfolding alternatives_def
  by (auto split: option.splits
           dest: number_match_shorter ident_match_shorter dot_match_shorter)

lemma TOKEN_RE_match_shorter:
  "TOKEN_RE_match s = Some (g, rest) \<Longrightarrow> length rest < length s"
proof (induction s)
  case Nil
  then show ?case by (auto dest: alternatives_shorter)
next
  case (Cons c cs)
  then show ?case
    by (fastforce split: if_splits option.splits dest: alternatives_shorter)
qed

text \<open>
  \<^verbatim>\<open>TOKEN_RE.finditer(text)\<close>: the matches from left to right. The search for the
  next match starts where the last one ended; where no match starts, it moves on by one
  character. No match of \<^verbatim>\<open>TOKEN_RE\<close> is empty.
\<close>

function finditer :: "string \<Rightarrow> groups list" where
  "finditer s =
     (case TOKEN_RE_match s of
        Some (g, rest) \<Rightarrow> g # finditer rest
      | None \<Rightarrow> (case s of [] \<Rightarrow> [] | c # cs \<Rightarrow> finditer cs))"
  by pat_completeness auto

termination
  by (relation "measure length") (auto dest: TOKEN_RE_match_shorter)

declare finditer.simps [simp del]

subsection \<open>The class Lexer\<close>

text \<open>The truth value of \<^verbatim>\<open>if num\<close>: false for \<^verbatim>\<open>None\<close> and for the empty string.\<close>

definition truthy :: "string option \<Rightarrow> bool" where
  "truthy v = (case v of None \<Rightarrow> False | Some s \<Rightarrow> s \<noteq> [])"

text \<open>\<^verbatim>\<open>x in s\<close> on strings: \<open>x\<close> occurs in \<open>s\<close> as a contiguous piece.\<close>

fun str_in :: "string \<Rightarrow> string \<Rightarrow> bool" where
  "str_in x [] = (x = [])"
| "str_in x (c # cs) = (take (length x) (c # cs) = x \<or> str_in x cs)"

text \<open>
  The loop of \<^verbatim>\<open>Lexer.__init__\<close> over the matches, with \<^verbatim>\<open>self.tokens\<close> as
  accumulator.
\<close>

fun Lexer_loop :: "groups list \<Rightarrow> token list \<Rightarrow> error + token list" where
  "Lexer_loop [] toks = Inr toks"
| "Lexer_loop ((num, ident, other) # mos) toks =
     (if truthy num then Lexer_loop mos (toks @ [(''NUMBER'', the num)])
      else if truthy ident then Lexer_loop mos (toks @ [(''ID'', the ident)])
      else (case other of
              None \<Rightarrow> Inl TypeError
            | Some c \<Rightarrow>
                if str_in c ''+-*/()'' then Lexer_loop mos (toks @ [(c, c)])
                else Lexer_loop mos toks))"

definition Lexer :: "string \<Rightarrow> error + lexer" where
  "Lexer text =
     (case Lexer_loop (finditer text) [] of
        Inl err \<Rightarrow> Inl err
      | Inr toks \<Rightarrow> Inr \<lparr>tokens = toks, pos = 0\<rparr>)"

text \<open>
  \<^verbatim>\<open>peek\<close> gives the token at the position, or \<^verbatim>\<open>("EOF", "")\<close> past the end
  of the list; \<^verbatim>\<open>next\<close> gives the same token and moves the position on by one.
\<close>

definition peek :: "lexer \<Rightarrow> token" where
  "peek lx = (if pos lx < length (tokens lx) then tokens lx ! pos lx else (''EOF'', ''''))"

definition next_tok :: "lexer \<Rightarrow> token \<times> lexer" where
  "next_tok lx = (let tok = peek lx in (tok, lx\<lparr>pos := pos lx + 1\<rparr>))"

subsection \<open>The parser\<close>

text \<open>
  The nested functions \<^verbatim>\<open>E\<close>, \<^verbatim>\<open>T\<close> and \<^verbatim>\<open>F\<close> share the lexer object; here
  each takes the lexer and returns it with the tree. The two \<^verbatim>\<open>while\<close> loops are
  \<open>E_while\<close> and \<open>T_while\<close>, with the local \<^verbatim>\<open>node\<close> as argument.
\<close>

function E :: "lexer \<Rightarrow> error + node \<times> lexer"
  and E_while :: "node \<Rightarrow> lexer \<Rightarrow> error + node \<times> lexer"
  and T :: "lexer \<Rightarrow> error + node \<times> lexer"
  and T_while :: "node \<Rightarrow> lexer \<Rightarrow> error + node \<times> lexer"
  and F :: "lexer \<Rightarrow> error + node \<times> lexer"
where
  "E lx =
     (case T lx of
        Inl err \<Rightarrow> Inl err
      | Inr (node, lx1) \<Rightarrow> E_while node lx1)"
| "E_while node lx =
     (if fst (peek lx) \<in> {''+'', ''-''}
      then (case next_tok lx of
              (tok, lx1) \<Rightarrow>
                (case T lx1 of
                   Inl err \<Rightarrow> Inl err
                 | Inr (rhs, lx2) \<Rightarrow> E_while (BINOP (fst tok) node rhs) lx2))
      else Inr (node, lx))"
| "T lx =
     (case F lx of
        Inl err \<Rightarrow> Inl err
      | Inr (node, lx1) \<Rightarrow> T_while node lx1)"
| "T_while node lx =
     (if fst (peek lx) \<in> {''*'', ''/''}
      then (case next_tok lx of
              (tok, lx1) \<Rightarrow>
                (case F lx1 of
                   Inl err \<Rightarrow> Inl err
                 | Inr (rhs, lx2) \<Rightarrow> T_while (BINOP (fst tok) node rhs) lx2))
      else Inr (node, lx))"
| "F lx =
     (let tok = peek lx in
      if fst tok = ''(''
      then (case next_tok lx of
              (_, lx1) \<Rightarrow>
                (case E lx1 of
                   Inl err \<Rightarrow> Inl err
                 | Inr (node, lx2) \<Rightarrow>
                     if fst (peek lx2) \<noteq> '')'' then Inl (SyntaxError Faltando_paren)
                     else (case next_tok lx2 of (_, lx3) \<Rightarrow> Inr (node, lx3))))
      else if fst tok = ''NUMBER''
      then (case next_tok lx of (t, lx1) \<Rightarrow> Inr (Leaf ''NUMBER'' (snd t), lx1))
      else if fst tok = ''ID''
      then (case next_tok lx of (t, lx1) \<Rightarrow> Inr (Leaf ''ID'' (snd t), lx1))
      else Inl (SyntaxError (Token_inesperado tok)))"
  by pat_completeness auto

text \<open>
  Termination: a successful call returns the same token list at a position that is not
  smaller, and every call made after a token was consumed has fewer tokens left.
\<close>

definition advances :: "lexer \<Rightarrow> error + node \<times> lexer \<Rightarrow> bool" where
  "advances lx r =
     (case r of
        Inl err \<Rightarrow> True
      | Inr (node, lx1) \<Rightarrow> tokens lx1 = tokens lx \<and> pos lx \<le> pos lx1)"

lemma advances_Inl [simp]: "advances lx (Inl err)"
  by (simp add: advances_def)

lemma advances_Inr [simp]:
  "advances lx (Inr (node, lx1)) = (tokens lx1 = tokens lx \<and> pos lx \<le> pos lx1)"
  by (simp add: advances_def)

lemma advances_trans:
  "advances lx1 r \<Longrightarrow> tokens lx1 = tokens lx \<Longrightarrow> pos lx \<le> pos lx1 \<Longrightarrow> advances lx r"
  by (auto simp: advances_def split: sum.splits)

lemma advances_partial:
  "E_E_while_T_T_while_F_dom (Inl (Inl lx)) \<Longrightarrow> advances lx (E lx)"
  "E_E_while_T_T_while_F_dom (Inl (Inr (n2, lx2))) \<Longrightarrow> advances lx2 (E_while n2 lx2)"
  "E_E_while_T_T_while_F_dom (Inr (Inl lx3)) \<Longrightarrow> advances lx3 (T lx3)"
  "E_E_while_T_T_while_F_dom (Inr (Inr (Inl (n4, lx4)))) \<Longrightarrow> advances lx4 (T_while n4 lx4)"
  "E_E_while_T_T_while_F_dom (Inr (Inr (Inr lx5))) \<Longrightarrow> advances lx5 (F lx5)"
proof (induct rule: E_E_while_T_T_while_F.pinduct)
  case (1 lx)
  show ?case
  proof (cases "T lx")
    case (Inl err)
    then show ?thesis using 1(1) by (simp add: E.psimps)
  next
    case (Inr b)
    then obtain n lx1 where r: "T lx = Inr (n, lx1)"
      by (cases b) simp
    have a2: "advances lx1 (E_while n lx1)"
      by (rule 1(3) [OF r refl])
    have "tokens lx1 = tokens lx \<and> pos lx \<le> pos lx1"
      using 1(2) r by simp
    then have "advances lx (E_while n lx1)"
      using a2 by (auto intro: advances_trans)
    then show ?thesis
      using 1(1) r by (simp add: E.psimps)
  qed
next
  case (2 node lx)
  show ?case
  proof (cases "fst (peek lx) \<in> {''+'', ''-''}")
    case False
    then show ?thesis using 2(1) by (simp add: E_while.psimps)
  next
    case True
    define lx1 where "lx1 = lx\<lparr>pos := pos lx + 1\<rparr>"
    have nt: "next_tok lx = (peek lx, lx1)"
      by (simp add: next_tok_def lx1_def Let_def)
    have unfold: "E_while node lx =
        (case T lx1 of
           Inl err \<Rightarrow> Inl err
         | Inr (rhs, lx2) \<Rightarrow> E_while (BINOP (fst (peek lx)) node rhs) lx2)"
      using 2(1) True nt by (simp add: E_while.psimps)
    show ?thesis
    proof (cases "T lx1")
      case (Inl err)
      then show ?thesis using unfold by simp
    next
      case (Inr b)
      then obtain rhs lx2 where r: "T lx1 = Inr (rhs, lx2)"
        by (cases b) simp
      have a1: "advances lx1 (T lx1)"
        by (rule 2(2) [OF True nt [symmetric]])
      have a2: "advances lx2 (E_while (BINOP (fst (peek lx)) node rhs) lx2)"
        using 2(3) [OF True nt [symmetric] r refl] by simp
      have "tokens lx2 = tokens lx \<and> pos lx \<le> pos lx2"
        using a1 r by (simp add: lx1_def)
      then have "advances lx (E_while (BINOP (fst (peek lx)) node rhs) lx2)"
        using a2 by (auto intro: advances_trans)
      then show ?thesis
        using unfold r by simp
    qed
  qed
next
  case (3 lx)
  show ?case
  proof (cases "F lx")
    case (Inl err)
    then show ?thesis using 3(1) by (simp add: T.psimps)
  next
    case (Inr b)
    then obtain n lx1 where r: "F lx = Inr (n, lx1)"
      by (cases b) simp
    have a2: "advances lx1 (T_while n lx1)"
      by (rule 3(3) [OF r refl])
    have "tokens lx1 = tokens lx \<and> pos lx \<le> pos lx1"
      using 3(2) r by simp
    then have "advances lx (T_while n lx1)"
      using a2 by (auto intro: advances_trans)
    then show ?thesis
      using 3(1) r by (simp add: T.psimps)
  qed
next
  case (4 node lx)
  show ?case
  proof (cases "fst (peek lx) \<in> {''*'', ''/''}")
    case False
    then show ?thesis using 4(1) by (simp add: T_while.psimps)
  next
    case True
    define lx1 where "lx1 = lx\<lparr>pos := pos lx + 1\<rparr>"
    have nt: "next_tok lx = (peek lx, lx1)"
      by (simp add: next_tok_def lx1_def Let_def)
    have unfold: "T_while node lx =
        (case F lx1 of
           Inl err \<Rightarrow> Inl err
         | Inr (rhs, lx2) \<Rightarrow> T_while (BINOP (fst (peek lx)) node rhs) lx2)"
      using 4(1) True nt by (simp add: T_while.psimps)
    show ?thesis
    proof (cases "F lx1")
      case (Inl err)
      then show ?thesis using unfold by simp
    next
      case (Inr b)
      then obtain rhs lx2 where r: "F lx1 = Inr (rhs, lx2)"
        by (cases b) simp
      have a1: "advances lx1 (F lx1)"
        by (rule 4(2) [OF True nt [symmetric]])
      have a2: "advances lx2 (T_while (BINOP (fst (peek lx)) node rhs) lx2)"
        using 4(3) [OF True nt [symmetric] r refl] by simp
      have "tokens lx2 = tokens lx \<and> pos lx \<le> pos lx2"
        using a1 r by (simp add: lx1_def)
      then have "advances lx (T_while (BINOP (fst (peek lx)) node rhs) lx2)"
        using a2 by (auto intro: advances_trans)
      then show ?thesis
        using unfold r by simp
    qed
  qed
next
  case (5 lx)
  define lx1 where "lx1 = lx\<lparr>pos := pos lx + 1\<rparr>"
  have nt: "next_tok lx = (peek lx, lx1)"
    by (simp add: next_tok_def lx1_def Let_def)
  show ?case
  proof (cases "fst (peek lx) = ''(''")
    case False
    then show ?thesis
      using 5(1) nt by (simp add: F.psimps Let_def lx1_def)
  next
    case True
    have unfold: "F lx =
        (case E lx1 of
           Inl err \<Rightarrow> Inl err
         | Inr (node, lx2) \<Rightarrow>
             if fst (peek lx2) \<noteq> '')'' then Inl (SyntaxError Faltando_paren)
             else Inr (node, lx2\<lparr>pos := pos lx2 + 1\<rparr>))"
      using 5(1) True nt by (simp add: F.psimps Let_def next_tok_def split: sum.splits)
    have a1: "advances lx1 (E lx1)"
      by (rule 5(2) [OF refl True nt [symmetric]])
    show ?thesis
    proof (cases "E lx1")
      case (Inl err)
      then show ?thesis using unfold by simp
    next
      case (Inr b)
      then obtain node lx2 where r: "E lx1 = Inr (node, lx2)"
        by (cases b) simp
      have "tokens lx2 = tokens lx \<and> pos lx \<le> pos lx2"
        using a1 r by (simp add: lx1_def)
      then show ?thesis
        using unfold r by simp
    qed
  qed
qed

definition remaining :: "lexer \<Rightarrow> nat" where
  "remaining lx = length (tokens lx) - pos lx"

lemma peek_kind_in_range:
  "fst (peek lx) \<noteq> ''EOF'' \<Longrightarrow> pos lx < length (tokens lx)"
  by (auto simp: peek_def split: if_splits)

lemma next_tok_remaining:
  assumes "fst (peek lx) \<noteq> ''EOF''" and "(x, y) = next_tok lx"
  shows "remaining y < remaining lx"
  using assms peek_kind_in_range [of lx]
  by (auto simp: next_tok_def Let_def remaining_def)

lemma advances_remaining:
  "advances lx (Inr (node, lx1)) \<Longrightarrow> remaining lx1 \<le> remaining lx"
  by (auto simp: remaining_def)

lemma E_E_while_T_T_while_F_total: "All E_E_while_T_T_while_F_dom"
proof (relation "inv_image (less_than <*lex*> less_than)
     (\<lambda>c. case c of
        Inl (Inl lx) \<Rightarrow> (remaining lx, 4::nat)
      | Inl (Inr (node, lx)) \<Rightarrow> (remaining lx, 3)
      | Inr (Inl lx) \<Rightarrow> (remaining lx, 2)
      | Inr (Inr (Inl (node, lx))) \<Rightarrow> (remaining lx, 1)
      | Inr (Inr (Inr lx)) \<Rightarrow> (remaining lx, 0))", goal_cases)
  case 1
  show ?case by (intro wf_inv_image wf_lex_prod wf_less_than)
next
  case (2 lx)
  show ?case by simp
next
  case (3 lx b x y)
  have "advances lx (T lx)"
    by (rule advances_partial(3) [OF 3(3)])
  then have "remaining y \<le> remaining lx"
    using 3(1) 3(2) [symmetric] by (auto simp: remaining_def)
  then show ?case using 3(2) [symmetric] by auto
next
  case (4 node lx x y)
  have "fst (peek lx) \<noteq> ''EOF''" using 4(1) by auto
  then have "remaining y < remaining lx"
    using 4(2) by (rule next_tok_remaining)
  then show ?case by simp
next
  case (5 node lx x y b xa ya)
  have "fst (peek lx) \<noteq> ''EOF''" using 5(1) by auto
  then have lt: "remaining y < remaining lx"
    using 5(2) by (rule next_tok_remaining)
  have "advances y (T y)"
    by (rule advances_partial(3) [OF 5(5)])
  then have "remaining ya \<le> remaining y"
    using 5(3) 5(4) [symmetric] by (auto simp: remaining_def)
  then show ?case using lt by simp
next
  case (6 lx)
  show ?case by simp
next
  case (7 lx b x y)
  have "advances lx (F lx)"
    by (rule advances_partial(5) [OF 7(3)])
  then have "remaining y \<le> remaining lx"
    using 7(1) 7(2) [symmetric] by (auto simp: remaining_def)
  then show ?case using 7(2) [symmetric] by auto
next
  case (8 node lx x y)
  have "fst (peek lx) \<noteq> ''EOF''" using 8(1) by auto
  then have "remaining y < remaining lx"
    using 8(2) by (rule next_tok_remaining)
  then show ?case by simp
next
  case (9 node lx x y b xa ya)
  have "fst (peek lx) \<noteq> ''EOF''" using 9(1) by auto
  then have lt: "remaining y < remaining lx"
    using 9(2) by (rule next_tok_remaining)
  have "advances y (F y)"
    by (rule advances_partial(5) [OF 9(5)])
  then have "remaining ya \<le> remaining y"
    using 9(3) 9(4) [symmetric] by (auto simp: remaining_def)
  then show ?case using lt by simp
next
  case (10 lx x xa y)
  have "fst (peek lx) \<noteq> ''EOF''" using 10(1) 10(2) by auto
  then have "remaining y < remaining lx"
    using 10(3) by (rule next_tok_remaining)
  then show ?case by simp
qed

termination E
  by (rule E_E_while_T_T_while_F_total)

declare E.simps [simp del] E_while.simps [simp del] T.simps [simp del]
  T_while.simps [simp del] F.simps [simp del]

text \<open>\<^verbatim>\<open>parse_expression(text)\<close>: the tree, or the exception raised.\<close>

definition parse_expression :: "string \<Rightarrow> error + node" where
  "parse_expression text =
     (case Lexer text of
        Inl err \<Rightarrow> Inl err
      | Inr lx \<Rightarrow>
          (case E lx of
             Inl err \<Rightarrow> Inl err
           | Inr (tree, lx1) \<Rightarrow>
               if fst (peek lx1) \<noteq> ''EOF'' then Inl (SyntaxError Entrada_extra)
               else Inr tree))"

subsection \<open>The token sequence of a text\<close>

text \<open>
  Every match has exactly one group, and that group is not empty; \<open>emit\<close> is what one
  turn of the loop of \<^verbatim>\<open>Lexer.__init__\<close> appends for it; \<open>token_seq\<close> is the value
  of \<^verbatim>\<open>Lexer(text).tokens\<close>.
\<close>

fun one_group :: "groups \<Rightarrow> bool" where
  "one_group (Some n, None, None) = (n \<noteq> [])"
| "one_group (None, Some i, None) = (i \<noteq> [])"
| "one_group (None, None, Some c) = (length c = 1)"
| "one_group _ = False"

definition emit :: "groups \<Rightarrow> token list" where
  "emit g =
     (case g of (num, ident, other) \<Rightarrow>
        if truthy num then [(''NUMBER'', the num)]
        else if truthy ident then [(''ID'', the ident)]
        else (case other of
                None \<Rightarrow> []
              | Some c \<Rightarrow> if str_in c ''+-*/()'' then [(c, c)] else []))"

definition token_seq :: "string \<Rightarrow> token list" where
  "token_seq text = concat (map emit (finditer text))"

lemma number_match_nonempty: "number_match s = Some (m, rest) \<Longrightarrow> m \<noteq> []"
  by (auto simp: number_match_def Let_def split: if_splits list.splits)

lemma alternatives_one_group: "alternatives s = Some (g, rest) \<Longrightarrow> one_group g"
  by (auto simp: alternatives_def ident_match_def dot_match_def
           split: option.splits list.splits if_splits dest: number_match_nonempty)

lemma TOKEN_RE_match_one_group: "TOKEN_RE_match s = Some (g, rest) \<Longrightarrow> one_group g"
  by (induction s) (auto split: if_splits option.splits dest: alternatives_one_group)

lemma alternatives_Nil [simp]: "alternatives [] = None"
  by (simp add: alternatives_def number_match_def ident_match_def dot_match_def)

lemma finditer_Nil [simp]: "finditer [] = []"
  by (simp add: finditer.simps [of "[]"])

lemma finditer_Some:
  "TOKEN_RE_match s = Some (g, rest) \<Longrightarrow> finditer s = g # finditer rest"
  by (subst finditer.simps) simp

lemma finditer_None:
  "TOKEN_RE_match (c # cs) = None \<Longrightarrow> finditer (c # cs) = finditer cs"
  by (subst finditer.simps) simp

lemma finditer_one_group: "g \<in> set (finditer s) \<Longrightarrow> one_group g"
proof (induction s rule: finditer.induct)
  case (1 s)
  show ?case
  proof (cases "TOKEN_RE_match s")
    case None
    show ?thesis
    proof (cases s)
      case Nil
      then show ?thesis using 1(3) by simp
    next
      case (Cons c cs)
      then have "g \<in> set (finditer cs)"
        using 1(3) None by (simp add: finditer_None)
      then show ?thesis by (rule 1(1) [OF None Cons])
    qed
  next
    case (Some m)
    obtain g' rest where m: "m = (g', rest)" by (cases m)
    have "one_group g'" using Some m by (auto dest: TOKEN_RE_match_one_group)
    moreover have "g = g' \<or> g \<in> set (finditer rest)"
      using 1(3) Some m by (simp add: finditer_Some)
    ultimately show ?thesis
      using 1(2) [OF Some m [symmetric]] by auto
  qed
qed

lemma Lexer_loop_step:
  "one_group g \<Longrightarrow> Lexer_loop (g # gs) toks = Lexer_loop gs (toks @ emit g)"
  by (cases g rule: one_group.cases) (simp_all add: emit_def truthy_def)

lemma Lexer_loop_emit:
  "\<forall>g \<in> set gs. one_group g \<Longrightarrow>
     Lexer_loop gs toks = Inr (toks @ concat (map emit gs))"
  by (induction gs arbitrary: toks) (simp_all add: Lexer_loop_step)

lemma Lexer_total: "Lexer text = Inr \<lparr>tokens = token_seq text, pos = 0\<rparr>"
  using finditer_one_group Lexer_loop_emit [of "finditer text" "[]"]
  by (simp add: Lexer_def token_seq_def)

lemma token_seq_Nil [simp]: "token_seq [] = []"
  by (simp add: token_seq_def)

lemma token_seq_Some:
  "TOKEN_RE_match s = Some (g, rest) \<Longrightarrow> token_seq s = emit g @ token_seq rest"
  by (simp add: token_seq_def finditer_Some)

lemma token_seq_None:
  "TOKEN_RE_match (c # cs) = None \<Longrightarrow> token_seq (c # cs) = token_seq cs"
  by (simp add: token_seq_def finditer_None)

text \<open>The characters of \<^verbatim>\<open>"+-*/()"\<close>.\<close>

definition is_op :: "char \<Rightarrow> bool" where
  "is_op c = (c \<in> set ''+-*/()'')"

lemma str_in_single: "str_in [c] ''+-*/()'' = is_op c"
  by (auto simp: is_op_def)

lemma space_not_digit: "is_space c \<Longrightarrow> \<not> is_digit c"
  by (auto simp: is_space_def is_digit_def)

lemma space_not_id_start: "is_space c \<Longrightarrow> \<not> is_id_start c"
  by (auto simp: is_space_def is_id_start_def)

lemma space_not_op: "is_space c \<Longrightarrow> \<not> is_op c"
  by (auto simp: is_space_def is_op_def)

lemma digit_not_id_start: "is_digit c \<Longrightarrow> \<not> is_id_start c"
  by (auto simp: is_digit_def is_id_start_def)

lemma op_not_digit: "is_op c \<Longrightarrow> \<not> is_digit c"
  by (auto simp: is_digit_def is_op_def)

lemma op_not_id_start: "is_op c \<Longrightarrow> \<not> is_id_start c"
  by (auto simp: is_op_def is_id_start_def)

lemma newline_is_space: "is_space (CHR 0x0A)"
  by (simp add: is_space_def)

lemma id_char_iff: "is_id_char c = (is_id_start c \<or> is_digit c)"
  by (simp add: is_id_char_def is_digit_def)

lemma dot_not_digit: "\<not> is_digit CHR ''.''"
  by (simp add: is_digit_def)

lemma dot_not_space: "\<not> is_space CHR ''.''"
  by (simp add: is_space_def)

lemma dot_not_op: "\<not> is_op CHR ''.''"
  by (simp add: is_op_def)

lemma dot_not_id_start: "\<not> is_id_start CHR ''.''"
  by (simp add: is_id_start_def)

lemma number_match_None: "\<not> is_digit c \<Longrightarrow> number_match (c # t) = None"
  by (simp add: number_match_def)

lemma number_match_digit:
  "is_digit c \<Longrightarrow> \<exists>m rest. number_match (c # t) = Some (m, rest)"
  by (auto simp: number_match_def Let_def split: list.splits)

lemma number_match_Some_digit:
  "number_match s = Some (m, rest) \<Longrightarrow> \<exists>c t. s = c # t \<and> is_digit c"
  by (cases s) (auto simp: number_match_def Let_def split: if_splits)

lemma token_seq_space: "is_space c \<Longrightarrow> token_seq (c # t) = token_seq t"
proof -
  assume sp: "is_space c"
  show ?thesis
  proof (cases "TOKEN_RE_match t")
    case (Some m)
    obtain g rest where m: "m = (g, rest)" by (cases m)
    have "TOKEN_RE_match (c # t) = Some (g, rest)" using sp Some m by simp
    then show ?thesis using Some m by (simp add: token_seq_Some)
  next
    case None
    have alt: "alternatives (c # t) =
        (if c \<noteq> CHR 0x0A then Some ((None, None, Some [c]), t) else None)"
      using sp
      by (simp add: alternatives_def number_match_None space_not_digit ident_match_def
          space_not_id_start dot_match_def)
    show ?thesis
    proof (cases "c = CHR 0x0A")
      case True
      then have "TOKEN_RE_match (c # t) = None" using sp None alt by simp
      then show ?thesis by (rule token_seq_None)
    next
      case False
      then have "TOKEN_RE_match (c # t) = Some ((None, None, Some [c]), t)"
        using sp None alt by simp
      then show ?thesis
        using sp by (simp add: token_seq_Some emit_def truthy_def str_in_single space_not_op
            del: str_in.simps)
    qed
  qed
qed

lemma token_seq_number:
  assumes "number_match s = Some (m, rest)"
  shows "token_seq s = (''NUMBER'', m) # token_seq rest"
proof -
  obtain c t where s: "s = c # t" and d: "is_digit c"
    using number_match_Some_digit [OF assms] by blast
  have "\<not> is_space c" using d space_not_digit by blast
  then have "TOKEN_RE_match s = Some ((Some m, None, None), rest)"
    using assms s by (simp add: alternatives_def)
  moreover have "m \<noteq> []" using assms by (rule number_match_nonempty)
  ultimately show ?thesis by (simp add: token_seq_Some emit_def truthy_def)
qed

lemma token_seq_ident:
  assumes "is_id_start c"
  shows "token_seq (c # t) =
           (''ID'', c # takeWhile is_id_char t) # token_seq (dropWhile is_id_char t)"
proof -
  have "\<not> is_space c" "\<not> is_digit c"
    using assms space_not_id_start digit_not_id_start by blast+
  then have "TOKEN_RE_match (c # t) =
      Some ((None, Some (c # takeWhile is_id_char t), None), dropWhile is_id_char t)"
    using assms by (simp add: alternatives_def number_match_None ident_match_def)
  then show ?thesis by (simp add: token_seq_Some emit_def truthy_def)
qed

lemma token_seq_other:
  assumes "\<not> is_space c" "\<not> is_digit c" "\<not> is_id_start c"
  shows "token_seq (c # t) = (if is_op c then [([c], [c])] else []) @ token_seq t"
proof -
  have "c \<noteq> CHR 0x0A" using assms(1) newline_is_space by auto
  then have "TOKEN_RE_match (c # t) = Some ((None, None, Some [c]), t)"
    using assms by (simp add: alternatives_def number_match_None ident_match_def dot_match_def)
  then show ?thesis
    by (simp add: token_seq_Some emit_def truthy_def str_in_single del: str_in.simps)
qed

text \<open>
  The tokens the lexer can produce: a number or an identifier with the whole text of its
  match, or one of the six operator characters as both kind and text.
\<close>

definition lexer_token :: "token \<Rightarrow> bool" where
  "lexer_token tok =
     ((fst tok = ''NUMBER'' \<and> number_match (snd tok) = Some (snd tok, []))
      \<or> (fst tok = ''ID'' \<and> ident_match (snd tok) = Some (snd tok, []))
      \<or> (\<exists>c. is_op c \<and> tok = ([c], [c])))"

lemma dropWhile_takeWhile: "dropWhile P (takeWhile P xs) = []"
  by (induction xs) auto

lemma number_match_int:
  assumes "takeWhile is_digit s \<noteq> []"
    and "\<And>r'. dropWhile is_digit s = CHR ''.'' # r' \<Longrightarrow> takeWhile is_digit r' = []"
  shows "number_match s = Some (takeWhile is_digit s, dropWhile is_digit s)"
proof -
  define r where "r = dropWhile is_digit s"
  have "(case r of
           [] \<Rightarrow> Some (takeWhile is_digit s, r)
         | c # r' \<Rightarrow>
             if c = CHR ''.'' \<and> takeWhile is_digit r' \<noteq> []
             then Some (takeWhile is_digit s @ c # takeWhile is_digit r', dropWhile is_digit r')
             else Some (takeWhile is_digit s, r)) = Some (takeWhile is_digit s, r)"
    using assms(2) unfolding r_def [symmetric] by (cases r) auto
  then show ?thesis
    using assms(1) unfolding r_def by (simp add: number_match_def Let_def)
qed

lemma number_match_frac:
  assumes "takeWhile is_digit s \<noteq> []"
    and "dropWhile is_digit s = CHR ''.'' # r'"
    and "takeWhile is_digit r' \<noteq> []"
  shows "number_match s =
           Some (takeWhile is_digit s @ CHR ''.'' # takeWhile is_digit r', dropWhile is_digit r')"
  using assms by (simp add: number_match_def Let_def)

lemma number_match_cases:
  assumes "number_match s = Some (m, rest)"
  obtains
    (int) "takeWhile is_digit s \<noteq> []" "m = takeWhile is_digit s"
      "rest = dropWhile is_digit s"
      "\<And>r'. dropWhile is_digit s = CHR ''.'' # r' \<Longrightarrow> takeWhile is_digit r' = []"
  | (frac) r' where "takeWhile is_digit s \<noteq> []" "dropWhile is_digit s = CHR ''.'' # r'"
      "takeWhile is_digit r' \<noteq> []"
      "m = takeWhile is_digit s @ CHR ''.'' # takeWhile is_digit r'"
      "rest = dropWhile is_digit r'"
proof -
  have ne: "takeWhile is_digit s \<noteq> []"
    using assms by (auto simp: number_match_def Let_def split: if_splits)
  show thesis
  proof (cases "\<exists>r'. dropWhile is_digit s = CHR ''.'' # r' \<and> takeWhile is_digit r' \<noteq> []")
    case True
    then obtain r' where r': "dropWhile is_digit s = CHR ''.'' # r'"
        "takeWhile is_digit r' \<noteq> []"
      by blast
    have "number_match s =
        Some (takeWhile is_digit s @ CHR ''.'' # takeWhile is_digit r', dropWhile is_digit r')"
      using ne r' by (rule number_match_frac)
    then show ?thesis using assms ne r' frac by simp
  next
    case False
    then have no: "\<And>r'. dropWhile is_digit s = CHR ''.'' # r' \<Longrightarrow> takeWhile is_digit r' = []"
      by blast
    have "number_match s = Some (takeWhile is_digit s, dropWhile is_digit s)"
      using ne no by (rule number_match_int)
    then show ?thesis using assms ne no int by simp
  qed
qed

lemma number_match_full:
  assumes "number_match s = Some (m, rest)"
  shows "number_match m = Some (m, [])"
  using assms
proof (cases rule: number_match_cases)
  case int
  have "number_match m = Some (takeWhile is_digit m, dropWhile is_digit m)"
    using int(1) unfolding int(2)
    by (intro number_match_int) (simp_all add: dropWhile_takeWhile)
  then show ?thesis unfolding int(2) by (simp add: dropWhile_takeWhile)
next
  case (frac r')
  define ds where "ds = takeWhile is_digit s"
  define fs where "fs = takeWhile is_digit r'"
  have ds: "\<And>x. x \<in> set ds \<Longrightarrow> is_digit x"
    unfolding ds_def by (auto dest: set_takeWhileD)
  have m: "m = ds @ CHR ''.'' # fs" using frac(4) by (simp add: ds_def fs_def)
  have t: "takeWhile is_digit m = ds"
    unfolding m using ds by (simp add: takeWhile_append2 dot_not_digit)
  have d: "dropWhile is_digit m = CHR ''.'' # fs"
    unfolding m using ds by (simp add: dropWhile_append2 dot_not_digit)
  have "number_match m =
      Some (takeWhile is_digit m @ CHR ''.'' # takeWhile is_digit fs, dropWhile is_digit fs)"
  proof (rule number_match_frac)
    show "takeWhile is_digit m \<noteq> []" using frac(1) t by (simp add: ds_def)
    show "dropWhile is_digit m = CHR ''.'' # fs" by (rule d)
    show "takeWhile is_digit fs \<noteq> []" using frac(3) by (simp add: fs_def)
  qed
  then show ?thesis
    unfolding t by (simp add: m fs_def dropWhile_takeWhile)
qed

lemma ident_match_full:
  assumes "ident_match s = Some (m, rest)"
  shows "ident_match m = Some (m, [])"
  using assms
  by (cases s) (auto simp: ident_match_def dropWhile_takeWhile split: if_splits)

lemma alternatives_lexer_token:
  assumes "alternatives s = Some (g, rest)" and "tok \<in> set (emit g)"
  shows "lexer_token tok"
proof (cases "number_match s")
  case (Some p)
  obtain m r where p: "p = (m, r)" by (cases p)
  have "g = (Some m, None, None)" using assms(1) Some p by (simp add: alternatives_def)
  moreover have "m \<noteq> []" using Some p by (auto dest: number_match_nonempty)
  ultimately have "tok = (''NUMBER'', m)" using assms(2) by (simp add: emit_def truthy_def)
  then show ?thesis
    using number_match_full [of s m r] Some p by (simp add: lexer_token_def)
next
  case None
  note nm = None
  show ?thesis
  proof (cases "ident_match s")
    case (Some p)
    obtain m r where p: "p = (m, r)" by (cases p)
    have "g = (None, Some m, None)" using assms(1) nm Some p by (simp add: alternatives_def)
    moreover have "m \<noteq> []"
      using Some p by (cases s) (auto simp: ident_match_def split: if_splits)
    ultimately have "tok = (''ID'', m)" using assms(2) by (simp add: emit_def truthy_def)
    then show ?thesis
      using ident_match_full [of s m r] Some p by (simp add: lexer_token_def)
  next
    case None
    then obtain c where "g = (None, None, Some [c])"
      using assms(1) nm
      by (cases s) (auto simp: alternatives_def dot_match_def split: if_splits)
    then have "is_op c \<and> tok = ([c], [c])"
      using assms(2)
      by (auto simp: emit_def truthy_def str_in_single simp del: str_in.simps split: if_splits)
    then show ?thesis by (auto simp: lexer_token_def)
  qed
qed

lemma TOKEN_RE_match_lexer_token:
  "TOKEN_RE_match s = Some (g, rest) \<Longrightarrow> tok \<in> set (emit g) \<Longrightarrow> lexer_token tok"
  by (induction s) (auto split: if_splits option.splits dest: alternatives_lexer_token)

lemma token_seq_lexer_token: "tok \<in> set (token_seq s) \<Longrightarrow> lexer_token tok"
proof (induction s rule: finditer.induct)
  case (1 s)
  show ?case
  proof (cases "TOKEN_RE_match s")
    case None
    show ?thesis
    proof (cases s)
      case Nil
      then show ?thesis using 1(3) by simp
    next
      case (Cons c cs)
      then have "tok \<in> set (token_seq cs)"
        using 1(3) None by (simp add: token_seq_None)
      then show ?thesis by (rule 1(1) [OF None Cons])
    qed
  next
    case (Some m)
    obtain g rest where m: "m = (g, rest)" by (cases m)
    have "tok \<in> set (emit g) \<or> tok \<in> set (token_seq rest)"
      using 1(3) Some m by (simp add: token_seq_Some)
    then show ?thesis
      using 1(2) [OF Some m [symmetric]] TOKEN_RE_match_lexer_token [of s g rest tok] Some m
      by auto
  qed
qed

lemma lexer_token_kind:
  "lexer_token tok \<Longrightarrow>
     fst tok \<in> {''NUMBER'', ''ID'', ''+'', ''-'', ''*'', ''/'', ''('', '')''}"
  by (auto simp: lexer_token_def is_op_def)

subsection \<open>The calls made during a parse\<close>

text \<open>
  A call of one of the five functions at a lexer state, its value, and the calls its body
  makes: \<open>calls c d\<close> holds when the body of \<open>c\<close> evaluates \<open>d\<close>, under the
  conditions of the branch that does so. A factor position of a parse is a lexer state
  \<open>lx\<close> with \<open>Call_F lx\<close> reachable from the top call of \<open>E\<close>.
\<close>

datatype call =
    Call_E lexer
  | Call_E_while node lexer
  | Call_T lexer
  | Call_T_while node lexer
  | Call_F lexer

fun result :: "call \<Rightarrow> error + node \<times> lexer" where
  "result (Call_E lx) = E lx"
| "result (Call_E_while node lx) = E_while node lx"
| "result (Call_T lx) = T lx"
| "result (Call_T_while node lx) = T_while node lx"
| "result (Call_F lx) = F lx"

inductive calls :: "call \<Rightarrow> call \<Rightarrow> bool" where
  E_T: "calls (Call_E lx) (Call_T lx)"
| E_loop: "T lx = Inr (node, lx1) \<Longrightarrow> calls (Call_E lx) (Call_E_while node lx1)"
| E_while_T:
    "fst (peek lx) \<in> {''+'', ''-''} \<Longrightarrow>
       calls (Call_E_while node lx) (Call_T (snd (next_tok lx)))"
| E_while_again:
    "fst (peek lx) \<in> {''+'', ''-''} \<Longrightarrow> T (snd (next_tok lx)) = Inr (rhs, lx2) \<Longrightarrow>
       calls (Call_E_while node lx) (Call_E_while (BINOP (fst (peek lx)) node rhs) lx2)"
| T_F: "calls (Call_T lx) (Call_F lx)"
| T_loop: "F lx = Inr (node, lx1) \<Longrightarrow> calls (Call_T lx) (Call_T_while node lx1)"
| T_while_F:
    "fst (peek lx) \<in> {''*'', ''/''} \<Longrightarrow>
       calls (Call_T_while node lx) (Call_F (snd (next_tok lx)))"
| T_while_again:
    "fst (peek lx) \<in> {''*'', ''/''} \<Longrightarrow> F (snd (next_tok lx)) = Inr (rhs, lx2) \<Longrightarrow>
       calls (Call_T_while node lx) (Call_T_while (BINOP (fst (peek lx)) node rhs) lx2)"
| F_E: "fst (peek lx) = ''('' \<Longrightarrow> calls (Call_F lx) (Call_E (snd (next_tok lx)))"

code_pred calls .

lemma next_tok_fst [simp]: "fst (next_tok lx) = peek lx"
  by (simp add: next_tok_def Let_def)

lemma next_tok_snd [simp]: "snd (next_tok lx) = lx\<lparr>pos := pos lx + 1\<rparr>"
  by (simp add: next_tok_def Let_def)

lemma E_while_step:
  "fst (peek lx) \<in> {''+'', ''-''} \<Longrightarrow>
     E_while node lx =
       (case T (snd (next_tok lx)) of
          Inl err \<Rightarrow> Inl err
        | Inr (rhs, lx2) \<Rightarrow> E_while (BINOP (fst (peek lx)) node rhs) lx2)"
  by (subst E_while.simps) (simp add: next_tok_def Let_def)

lemma E_while_stop:
  "fst (peek lx) \<notin> {''+'', ''-''} \<Longrightarrow> E_while node lx = Inr (node, lx)"
  by (subst E_while.simps) simp

lemma T_while_step:
  "fst (peek lx) \<in> {''*'', ''/''} \<Longrightarrow>
     T_while node lx =
       (case F (snd (next_tok lx)) of
          Inl err \<Rightarrow> Inl err
        | Inr (rhs, lx2) \<Rightarrow> T_while (BINOP (fst (peek lx)) node rhs) lx2)"
  by (subst T_while.simps) (simp add: next_tok_def Let_def)

lemma T_while_stop:
  "fst (peek lx) \<notin> {''*'', ''/''} \<Longrightarrow> T_while node lx = Inr (node, lx)"
  by (subst T_while.simps) simp

lemma F_paren:
  "fst (peek lx) = ''('' \<Longrightarrow>
     F lx =
       (case E (snd (next_tok lx)) of
          Inl err \<Rightarrow> Inl err
        | Inr (node, lx2) \<Rightarrow>
            if fst (peek lx2) \<noteq> '')'' then Inl (SyntaxError Faltando_paren)
            else Inr (node, snd (next_tok lx2)))"
  by (subst F.simps) (simp add: next_tok_def Let_def split: sum.splits)

lemma F_unexpected:
  "fst (peek lx) \<notin> {''('', ''NUMBER'', ''ID''} \<Longrightarrow>
     F lx = Inl (SyntaxError (Token_inesperado (peek lx)))"
  by (subst F.simps) (simp add: Let_def)

lemma calls_error: "calls c d \<Longrightarrow> result d = Inl err \<Longrightarrow> result c = Inl err"
proof (induction rule: calls.induct)
  case (E_T lx)
  then show ?case by (simp add: E.simps [of lx])
next
  case (E_loop lx node lx1)
  then show ?case by (simp add: E.simps [of lx])
next
  case (E_while_T lx node)
  then show ?case using E_while_step [of lx node] by simp
next
  case (E_while_again lx rhs lx2 node)
  then show ?case using E_while_step [of lx node] by simp
next
  case (T_F lx)
  then show ?case by (simp add: T.simps [of lx])
next
  case (T_loop lx node lx1)
  then show ?case by (simp add: T.simps [of lx])
next
  case (T_while_F lx node)
  then show ?case using T_while_step [of lx node] by simp
next
  case (T_while_again lx rhs lx2 node)
  then show ?case using T_while_step [of lx node] by simp
next
  case (F_E lx)
  then show ?case using F_paren [of lx] by simp
qed

lemma calls_star_error:
  "calls\<^sup>*\<^sup>* c d \<Longrightarrow> result d = Inl err \<Longrightarrow> result c = Inl err"
  by (induction rule: rtranclp_induct) (auto dest: calls_error)

lemma parse_expression_error:
  "Lexer text = Inr lx0 \<Longrightarrow> E lx0 = Inl err \<Longrightarrow> parse_expression text = Inl err"
  by (simp add: parse_expression_def)

subsection \<open>Shape of the trees the loops build\<close>

text \<open>
  \<open>on_left_spine n t\<close>: the tree \<open>n\<close> is \<open>t\<close> or is reached from \<open>t\<close> by going to
  the left operand some number of times.
\<close>

fun on_left_spine :: "node \<Rightarrow> node \<Rightarrow> bool" where
  "on_left_spine n (Leaf kind text) = (n = Leaf kind text)"
| "on_left_spine n (BINOP opr l r) = (n = BINOP opr l r \<or> on_left_spine n l)"

lemma E_advances: "advances lx (E lx)"
  using advances_partial(1) E_E_while_T_T_while_F_total by blast



lemma on_left_spine_refl [simp]: "on_left_spine n n"
  by (cases n) simp_all





lemma lexer_token_not_EOF: "lexer_token tok \<Longrightarrow> fst tok \<noteq> ''EOF''"
  by (auto simp: lexer_token_def is_op_def)

lemma peek_Lexer_not_EOF:
  assumes "tokens lx = token_seq text" and "pos lx < length (tokens lx)"
  shows "fst (peek lx) \<noteq> ''EOF''"
proof -
  have "tokens lx ! pos lx \<in> set (token_seq text)"
    using assms by (metis nth_mem)
  then have "lexer_token (tokens lx ! pos lx)" by (rule token_seq_lexer_token)
  then show ?thesis using assms(2) by (simp add: peek_def lexer_token_not_EOF)
qed

subsection \<open>Characters that give no token\<close>

text \<open>
  The characters the lexer can turn into a token or skip as white space: a digit, a
  letter or underscore, a white space character, one of \<^verbatim>\<open>+-*/()\<close>.
\<close>

definition recognised :: "char \<Rightarrow> bool" where
  "recognised c = (is_digit c \<or> is_id_start c \<or> is_space c \<or> is_op c)"

text \<open>A text with every other character erased.\<close>

definition erased :: "string \<Rightarrow> string" where
  "erased text = filter recognised text"

text \<open>A text with every other character but the dot replaced by a space.\<close>

definition blank :: "char \<Rightarrow> char" where
  "blank c = (if recognised c \<or> c = CHR ''.'' then c else CHR '' '')"

definition blanked :: "string \<Rightarrow> string" where
  "blanked text = map blank text"

lemma blank_space_char: "is_space CHR '' ''"
  by (simp add: is_space_def)

lemma blank_digit [simp]: "is_digit (blank c) = is_digit c"
  using space_not_digit [OF blank_space_char] by (auto simp: blank_def recognised_def)

lemma blank_id_char [simp]: "is_id_char (blank c) = is_id_char c"
  using space_not_digit [OF blank_space_char] space_not_id_start [OF blank_space_char]
  by (auto simp: blank_def id_char_iff recognised_def)

lemma blank_fix_digit: "is_digit c \<Longrightarrow> blank c = c"
  by (simp add: blank_def recognised_def)

lemma blank_fix_id_char: "is_id_char c \<Longrightarrow> blank c = c"
  by (auto simp: blank_def recognised_def id_char_iff)

lemma blank_dot [simp]: "(blank c = CHR ''.'') = (c = CHR ''.'')"
  by (simp add: blank_def)

lemma takeWhile_map_fix:
  "(\<And>x. P (f x) = P x) \<Longrightarrow> (\<And>x. P x \<Longrightarrow> f x = x) \<Longrightarrow>
     takeWhile P (map f xs) = takeWhile P xs"
  by (induction xs) auto

lemma dropWhile_map_fix:
  "(\<And>x. P (f x) = P x) \<Longrightarrow> dropWhile P (map f xs) = map f (dropWhile P xs)"
  by (induction xs) auto

lemma takeWhile_digit_blank [simp]:
  "takeWhile is_digit (map blank xs) = takeWhile is_digit xs"
  by (rule takeWhile_map_fix) (simp_all add: blank_fix_digit)

lemma dropWhile_digit_blank [simp]:
  "dropWhile is_digit (map blank xs) = map blank (dropWhile is_digit xs)"
  by (rule dropWhile_map_fix) simp

lemma takeWhile_id_blank [simp]:
  "takeWhile is_id_char (map blank xs) = takeWhile is_id_char xs"
  by (rule takeWhile_map_fix) (simp_all add: blank_fix_id_char)

lemma dropWhile_id_blank [simp]:
  "dropWhile is_id_char (map blank xs) = map blank (dropWhile is_id_char xs)"
  by (rule dropWhile_map_fix) simp

lemma number_match_blank:
  assumes "number_match s = Some (m, rest)"
  shows "number_match (map blank s) = Some (m, map blank rest)"
  using assms
proof (cases rule: number_match_cases)
  case int
  have "number_match (map blank s) =
      Some (takeWhile is_digit (map blank s), dropWhile is_digit (map blank s))"
  proof (rule number_match_int)
    show "takeWhile is_digit (map blank s) \<noteq> []" using int(1) by simp
  next
    fix r'' assume "dropWhile is_digit (map blank s) = CHR ''.'' # r''"
    then obtain r0 where "dropWhile is_digit s = CHR ''.'' # r0" and "r'' = map blank r0"
      by (auto simp: map_eq_Cons_conv)
    then show "takeWhile is_digit r'' = []" using int(4) by simp
  qed
  then show ?thesis using int(2,3) by simp
next
  case (frac r')
  have "number_match (map blank s) =
      Some (takeWhile is_digit (map blank s) @ CHR ''.'' # takeWhile is_digit (map blank r'),
            dropWhile is_digit (map blank r'))"
  proof (rule number_match_frac)
    show "takeWhile is_digit (map blank s) \<noteq> []" using frac(1) by simp
    show "dropWhile is_digit (map blank s) = CHR ''.'' # map blank r'"
      using frac(2) by simp
    show "takeWhile is_digit (map blank r') \<noteq> []" using frac(3) by simp
  qed
  then show ?thesis using frac(4,5) by simp
qed

lemma token_seq_blank: "token_seq (map blank s) = token_seq s"
proof (induction s rule: length_induct)
  case (1 s)
  show ?case
  proof (cases s)
    case Nil
    then show ?thesis by simp
  next
    case (Cons c t)
    have ih: "\<And>u. length u \<le> length t \<Longrightarrow> token_seq (map blank u) = token_seq u"
      using 1 Cons by simp
    consider (space) "is_space c"
      | (digit) "is_digit c"
      | (ident) "is_id_start c"
      | (other) "\<not> is_space c" "\<not> is_digit c" "\<not> is_id_start c"
      by blast
    then show ?thesis
    proof cases
      case space
      then have "blank c = c" by (simp add: blank_def recognised_def)
      then show ?thesis using space Cons ih [of t] by (simp add: token_seq_space)
    next
      case digit
      then obtain m rest where nm: "number_match (c # t) = Some (m, rest)"
        using number_match_digit by blast
      have "length rest < length (c # t)" using nm by (rule number_match_shorter)
      then have "token_seq (map blank rest) = token_seq rest" using ih [of rest] by simp
      then show ?thesis
        using token_seq_number [OF nm] token_seq_number [OF number_match_blank [OF nm]] Cons
        by simp
    next
      case ident
      then have b: "blank c = c" by (simp add: blank_def recognised_def)
      have "length (dropWhile is_id_char t) \<le> length t" by (rule length_dropWhile_le)
      then have "token_seq (map blank (dropWhile is_id_char t)) = token_seq (dropWhile is_id_char t)"
        by (rule ih)
      then show ?thesis
        using ident Cons b token_seq_ident [of c t] token_seq_ident [of c "map blank t"]
        by simp
    next
      case other
      show ?thesis
      proof (cases "is_op c \<or> c = CHR ''.''")
        case True
        then have "blank c = c" by (auto simp: blank_def recognised_def)
        then show ?thesis
          using other Cons ih [of t] token_seq_other [of c t] token_seq_other [of c "map blank t"]
          by simp
      next
        case False
        then have "blank c = CHR '' ''" using other by (simp add: blank_def recognised_def)
        then have "token_seq (map blank (c # t)) = token_seq (map blank t)"
          using blank_space_char by (simp add: token_seq_space)
        moreover have "token_seq (c # t) = token_seq t"
          using other False token_seq_other [of c t] by simp
        ultimately show ?thesis using Cons ih [of t] by simp
      qed
    qed
  qed
qed

subsection \<open>Lexemes and their layout\<close>

text \<open>
  A lexeme is a text that one of the three patterns matches in full: a number, an
  identifier, or one of the six operator characters; \<open>token_of\<close> is its token.
  \<open>layout xs e\<close> is the text made of the lexemes of \<open>xs\<close> in order, each after its
  own run of characters, and \<open>e\<close> at the end. It is well laid when these runs and
  \<open>e\<close> are white space and two neighbours of which neither is an operator character
  have at least one character between them.
\<close>

definition is_number_lexeme :: "string \<Rightarrow> bool" where
  "is_number_lexeme l = (number_match l = Some (l, []))"

definition is_ident_lexeme :: "string \<Rightarrow> bool" where
  "is_ident_lexeme l = (ident_match l = Some (l, []))"

definition is_op_lexeme :: "string \<Rightarrow> bool" where
  "is_op_lexeme l = (case l of [c] \<Rightarrow> is_op c | _ \<Rightarrow> False)"

definition lexeme :: "string \<Rightarrow> bool" where
  "lexeme l = (is_number_lexeme l \<or> is_ident_lexeme l \<or> is_op_lexeme l)"

definition token_of :: "string \<Rightarrow> token" where
  "token_of l =
     (if is_number_lexeme l then (''NUMBER'', l)
      else if is_ident_lexeme l then (''ID'', l)
      else (l, l))"

fun layout :: "(string \<times> string) list \<Rightarrow> string \<Rightarrow> string" where
  "layout [] e = e"
| "layout ((w, l) # xs) e = w @ l @ layout xs e"

fun spaced :: "(string \<times> string) list \<Rightarrow> bool" where
  "spaced ((w1, l1) # (w2, l2) # xs) =
     ((w2 \<noteq> [] \<or> is_op_lexeme l1 \<or> is_op_lexeme l2) \<and> spaced ((w2, l2) # xs))"
| "spaced xs = True"

definition well_laid :: "(string \<times> string) list \<Rightarrow> string \<Rightarrow> bool" where
  "well_laid xs e =
     (list_all (\<lambda>(w, l). list_all is_space w \<and> lexeme l) xs \<and> list_all is_space e \<and> spaced xs)"

lemma token_seq_white: "list_all is_space w \<Longrightarrow> token_seq (w @ s) = token_seq s"
  by (induction w) (simp_all add: token_seq_space)

lemma takeWhile_stop:
  "(\<And>x. x \<in> set xs \<Longrightarrow> P x) \<Longrightarrow> R = [] \<or> \<not> P (hd R) \<Longrightarrow> takeWhile P (xs @ R) = xs"
  by (cases R) simp_all

lemma dropWhile_stop:
  "(\<And>x. x \<in> set xs \<Longrightarrow> P x) \<Longrightarrow> R = [] \<or> \<not> P (hd R) \<Longrightarrow> dropWhile P (xs @ R) = R"
  by (cases R) simp_all

text \<open>A text before which a number or identifier ends: empty, or starting with white
  space or an operator character.\<close>

definition word_end :: "string \<Rightarrow> bool" where
  "word_end R = (R = [] \<or> is_space (hd R) \<or> is_op (hd R))"

lemma word_end_digit: "word_end R \<Longrightarrow> R = [] \<or> \<not> is_digit (hd R)"
  by (auto simp: word_end_def space_not_digit op_not_digit)

lemma word_end_id_char: "word_end R \<Longrightarrow> R = [] \<or> \<not> is_id_char (hd R)"
  by (auto simp: word_end_def id_char_iff space_not_digit op_not_digit
      space_not_id_start op_not_id_start)

lemma word_end_dot: "word_end R \<Longrightarrow> R \<noteq> CHR ''.'' # r'"
  using dot_not_space dot_not_op by (auto simp: word_end_def)

lemma number_match_append:
  assumes "number_match l = Some (l, [])" and "word_end R"
  shows "number_match (l @ R) = Some (l, R)"
  using assms(1)
proof (cases rule: number_match_cases)
  case int
  have all: "\<And>x. x \<in> set l \<Longrightarrow> is_digit x"
    using int(3) [symmetric] by simp
  have t: "takeWhile is_digit (l @ R) = l"
    using all word_end_digit [OF assms(2)] by (rule takeWhile_stop)
  have d: "dropWhile is_digit (l @ R) = R"
    using all word_end_digit [OF assms(2)] by (rule dropWhile_stop)
  have "number_match (l @ R) =
      Some (takeWhile is_digit (l @ R), dropWhile is_digit (l @ R))"
  proof (rule number_match_int)
    show "takeWhile is_digit (l @ R) \<noteq> []" using t int(1,2) by simp
  next
    fix r' assume "dropWhile is_digit (l @ R) = CHR ''.'' # r'"
    then show "takeWhile is_digit r' = []"
      using d word_end_dot [OF assms(2)] by simp
  qed
  then show ?thesis by (simp add: t d)
next
  case (frac r')
  define ds where "ds = takeWhile is_digit l"
  have ds: "\<And>x. x \<in> set ds \<Longrightarrow> is_digit x"
    unfolding ds_def by (auto dest: set_takeWhileD)
  have r': "\<And>x. x \<in> set r' \<Longrightarrow> is_digit x"
    using frac(5) [symmetric] by simp
  have tr: "takeWhile is_digit r' = r'" using r' by simp
  have l: "l = ds @ CHR ''.'' # r'" using frac(4) tr by (simp add: ds_def)
  have t: "takeWhile is_digit (l @ R) = ds"
    unfolding l using ds by (simp add: dot_not_digit)
  have d: "dropWhile is_digit (l @ R) = CHR ''.'' # (r' @ R)"
    unfolding l using ds by (simp add: dot_not_digit)
  have t2: "takeWhile is_digit (r' @ R) = r'"
    using r' word_end_digit [OF assms(2)] by (rule takeWhile_stop)
  have d2: "dropWhile is_digit (r' @ R) = R"
    using r' word_end_digit [OF assms(2)] by (rule dropWhile_stop)
  have "number_match (l @ R) =
      Some (takeWhile is_digit (l @ R) @ CHR ''.'' # takeWhile is_digit (r' @ R),
            dropWhile is_digit (r' @ R))"
  proof (rule number_match_frac)
    show "takeWhile is_digit (l @ R) \<noteq> []" using t frac(1) by (simp add: ds_def)
    show "dropWhile is_digit (l @ R) = CHR ''.'' # (r' @ R)" by (rule d)
    have "r' \<noteq> []" using frac(3) by auto
    then show "takeWhile is_digit (r' @ R) \<noteq> []" unfolding t2 .
  qed
  then have "number_match (l @ R) = Some (ds @ CHR ''.'' # r', R)"
    unfolding t t2 d2 .
  then show ?thesis using l by simp
qed

lemma token_seq_lexeme:
  assumes "lexeme l" and "is_op_lexeme l \<or> word_end R"
  shows "token_seq (l @ R) = token_of l # token_seq R"
proof -
  consider (num) "is_number_lexeme l" | (ident) "\<not> is_number_lexeme l" "is_ident_lexeme l"
    | (opr) "\<not> is_number_lexeme l" "\<not> is_ident_lexeme l" "is_op_lexeme l"
    using assms(1) by (auto simp: lexeme_def)
  then show ?thesis
  proof cases
    case num
    then have nm: "number_match l = Some (l, [])" by (simp add: is_number_lexeme_def)
    obtain c t where "l = c # t" "is_digit c"
      using number_match_Some_digit [OF nm] by blast
    then have "\<not> is_op_lexeme l"
      using op_not_digit by (auto simp: is_op_lexeme_def split: list.splits)
    then have "word_end R" using assms(2) by simp
    then have "number_match (l @ R) = Some (l, R)"
      using nm by (intro number_match_append)
    then show ?thesis using num by (simp add: token_seq_number token_of_def)
  next
    case ident
    then obtain c t where l: "l = c # t" and c: "is_id_start c"
      and t: "takeWhile is_id_char t = t"
      by (cases l) (auto simp: is_ident_lexeme_def ident_match_def split: if_splits)
    have all: "\<And>x. x \<in> set t \<Longrightarrow> is_id_char x"
      using t by simp
    have "\<not> is_op_lexeme l"
      using l c op_not_id_start by (auto simp: is_op_lexeme_def split: list.splits)
    then have we: "word_end R" using assms(2) by simp
    have "takeWhile is_id_char (t @ R) = t"
      using all word_end_id_char [OF we] by (rule takeWhile_stop)
    moreover have "dropWhile is_id_char (t @ R) = R"
      using all word_end_id_char [OF we] by (rule dropWhile_stop)
    ultimately show ?thesis
      using ident c token_seq_ident [of c "t @ R"] by (simp add: l token_of_def)
  next
    case opr
    then obtain c where l: "l = [c]" and c: "is_op c"
      by (auto simp: is_op_lexeme_def split: list.splits)
    have "\<not> is_space c" "\<not> is_digit c" "\<not> is_id_start c"
      using c space_not_op op_not_digit op_not_id_start by blast+
    then show ?thesis
      using opr c token_seq_other [of c R] by (simp add: l token_of_def)
  qed
qed

lemma layout_word_end:
  assumes "well_laid ((w, l) # xs) e"
  shows "is_op_lexeme l \<or> word_end (layout xs e)"
proof (cases xs)
  case Nil
  then show ?thesis
    using assms by (cases e) (auto simp: well_laid_def word_end_def)
next
  case (Cons x xs')
  obtain w2 l2 where x: "x = (w2, l2)" by (cases x)
  show ?thesis
  proof (cases w2)
    case (Cons c cs)
    then have "is_space c" using assms x \<open>xs = x # xs'\<close> by (simp add: well_laid_def)
    then show ?thesis using Cons x \<open>xs = x # xs'\<close> by (simp add: word_end_def)
  next
    case Nil
    then have "is_op_lexeme l \<or> is_op_lexeme l2"
      using assms x \<open>xs = x # xs'\<close> by (simp add: well_laid_def)
    then show ?thesis
      using Nil x \<open>xs = x # xs'\<close>
      by (auto simp: word_end_def is_op_lexeme_def split: list.splits)
  qed
qed

lemma well_laid_tail: "well_laid (x # xs) e \<Longrightarrow> well_laid xs e"
  by (cases x; cases xs) (auto simp: well_laid_def)

lemma token_seq_layout:
  "well_laid xs e \<Longrightarrow> token_seq (layout xs e) = map (token_of \<circ> snd) xs"
proof (induction xs)
  case Nil
  then show ?case using token_seq_white [of e "[]"] by (simp add: well_laid_def)
next
  case (Cons x xs)
  obtain w l where x: "x = (w, l)" by (cases x)
  have w: "list_all is_space w" and l: "lexeme l"
    using Cons.prems x by (simp_all add: well_laid_def)
  have "token_seq (layout (x # xs) e) = token_seq (l @ layout xs e)"
    using w by (simp add: x token_seq_white)
  also have "\<dots> = token_of l # token_seq (layout xs e)"
    using l layout_word_end [of w l xs e] Cons.prems x by (intro token_seq_lexeme) simp_all
  also have "\<dots> = map (token_of \<circ> snd) (x # xs)"
    using Cons.IH [OF well_laid_tail [OF Cons.prems]] by (simp add: x)
  finally show ?case .
qed

subsection \<open>Terms and factors as operands\<close>

text \<open>
  What \<open>T\<close> and \<open>E\<close> return for one operand and for two, what \<open>F\<close> returns for
  a leaf token and for a closed parenthesis, and the trees of the token lists with two
  operators that the statements on precedence and on parentheses are about.
\<close>

lemma F_leaf:
  "fst (peek lx) \<in> {''NUMBER'', ''ID''} \<Longrightarrow>
     F lx = Inr (Leaf (fst (peek lx)) (snd (peek lx)), snd (next_tok lx))"
  by (subst F.simps) (auto simp: Let_def next_tok_def)

lemma F_paren_closed:
  assumes "fst (peek lx) = ''(''" and "E (snd (next_tok lx)) = Inr (node, lx2)"
    and "fst (peek lx2) = '')''"
  shows "F lx = Inr (node, snd (next_tok lx2))"
  using F_paren [OF assms(1)] assms(2,3) by simp

lemma T_one:
  assumes "F lx = Inr (x, lx1)" and "fst (peek lx1) \<notin> {''*'', ''/''}"
  shows "T lx = Inr (x, lx1)"
  using assms by (simp add: T.simps [of lx] T_while_stop)

lemma T_two:
  assumes "F lx = Inr (x, lx1)" and "fst (peek lx1) \<in> {''*'', ''/''}"
    and "F (snd (next_tok lx1)) = Inr (y, lx2)" and "fst (peek lx2) \<notin> {''*'', ''/''}"
  shows "T lx = Inr (BINOP (fst (peek lx1)) x y, lx2)"
proof -
  have "T_while x lx1 = T_while (BINOP (fst (peek lx1)) x y) lx2"
    using T_while_step [OF assms(2), of x] assms(3) by simp
  also have "\<dots> = Inr (BINOP (fst (peek lx1)) x y, lx2)"
    using assms(4) by (rule T_while_stop)
  finally show ?thesis using assms(1) by (simp add: T.simps [of lx])
qed

lemma E_one:
  assumes "T lx = Inr (x, lx1)" and "fst (peek lx1) \<notin> {''+'', ''-''}"
  shows "E lx = Inr (x, lx1)"
  using assms by (simp add: E.simps [of lx] E_while_stop)

lemma E_two:
  assumes "T lx = Inr (x, lx1)" and "fst (peek lx1) \<in> {''+'', ''-''}"
    and "T (snd (next_tok lx1)) = Inr (y, lx2)" and "fst (peek lx2) \<notin> {''+'', ''-''}"
  shows "E lx = Inr (BINOP (fst (peek lx1)) x y, lx2)"
proof -
  have "E_while x lx1 = E_while (BINOP (fst (peek lx1)) x y) lx2"
    using E_while_step [OF assms(2), of x] assms(3) by simp
  also have "\<dots> = Inr (BINOP (fst (peek lx1)) x y, lx2)"
    using assms(4) by (rule E_while_stop)
  finally show ?thesis using assms(1) by (simp add: E.simps [of lx])
qed

lemma E_binary:
  assumes f1: "F lx = Inr (x, lx1)"
    and opr: "fst (peek lx1) \<in> {''+'', ''-'', ''*'', ''/''}"
    and f2: "F (snd (next_tok lx1)) = Inr (y, lx2)"
    and stop: "fst (peek lx2) \<notin> {''+'', ''-'', ''*'', ''/''}"
  shows "E lx = Inr (BINOP (fst (peek lx1)) x y, lx2)"
proof (cases "fst (peek lx1) \<in> {''*'', ''/''}")
  case True
  have "T lx = Inr (BINOP (fst (peek lx1)) x y, lx2)"
    using f1 True f2 stop by (intro T_two) auto
  then show ?thesis using stop by (intro E_one) auto
next
  case False
  then have add: "fst (peek lx1) \<in> {''+'', ''-''}" using opr by auto
  have t1: "T lx = Inr (x, lx1)" using f1 False by (rule T_one)
  have t2: "T (snd (next_tok lx1)) = Inr (y, lx2)"
    using f2 stop by (intro T_one) auto
  show ?thesis using t1 add t2 stop by (intro E_two) auto
qed

lemma F_leaf_at:
  assumes "n < length ts" and "fst (ts ! n) \<in> {''NUMBER'', ''ID''}"
  shows "F \<lparr>tokens = ts, pos = n\<rparr> =
           Inr (Leaf (fst (ts ! n)) (snd (ts ! n)), \<lparr>tokens = ts, pos = Suc n\<rparr>)"
  using F_leaf [of "\<lparr>tokens = ts, pos = n\<rparr>"] assms by (simp add: peek_def)

lemma parse_expression_tree:
  assumes "Lexer text = Inr lx0" and "E lx0 = Inr (tree, lx1)"
    and "fst (peek lx1) = ''EOF''"
  shows "parse_expression text = Inr tree"
  using assms by (simp add: parse_expression_def)

lemma additive_first:
  assumes k: "k1 \<in> {''NUMBER'', ''ID''}" "k2 \<in> {''NUMBER'', ''ID''}" "k3 \<in> {''NUMBER'', ''ID''}"
    and o1: "o1 \<in> {''+'', ''-''}" and o2: "o2 \<in> {''*'', ''/''}"
  shows "E \<lparr>tokens = [(k1, a), (o1, o1), (k2, b), (o2, o2), (k3, c)], pos = 0\<rparr> =
    Inr (BINOP o1 (Leaf k1 a) (BINOP o2 (Leaf k2 b) (Leaf k3 c)),
         \<lparr>tokens = [(k1, a), (o1, o1), (k2, b), (o2, o2), (k3, c)], pos = 5\<rparr>)"
proof -
  define ts where "ts = [(k1, a), (o1, o1), (k2, b), (o2, o2), (k3, c)]"
  define st where "st n = \<lparr>tokens = ts, pos = n\<rparr>" for n
  have nx: "\<And>n. snd (next_tok (st n)) = st (Suc n)" by (simp add: st_def)
  have p1: "peek (st 1) = (o1, o1)" by (simp add: st_def ts_def peek_def)
  have p3: "peek (st 3) = (o2, o2)" by (simp add: st_def ts_def peek_def)
  have p5: "peek (st 5) = (''EOF'', [])" by (simp add: st_def ts_def peek_def)
  have f0: "F (st 0) = Inr (Leaf k1 a, st 1)"
    unfolding st_def using F_leaf_at [of 0 ts] k(1) by (simp add: ts_def)
  have f2: "F (st 2) = Inr (Leaf k2 b, st 3)"
    unfolding st_def using F_leaf_at [of 2 ts] k(2) by (simp add: ts_def eval_nat_numeral)
  have f4: "F (st 4) = Inr (Leaf k3 c, st 5)"
    unfolding st_def using F_leaf_at [of 4 ts] k(3) by (simp add: ts_def eval_nat_numeral)
  have t0: "T (st 0) = Inr (Leaf k1 a, st 1)"
    using f0 p1 o1 by (intro T_one) auto
  have t2: "T (st 2) = Inr (BINOP (fst (peek (st 3))) (Leaf k2 b) (Leaf k3 c), st 5)"
    using f2 f4 p3 p5 o2 nx [of 3] by (intro T_two) (auto simp: eval_nat_numeral)
  have "E (st 0) =
      Inr (BINOP (fst (peek (st 1))) (Leaf k1 a) (BINOP o2 (Leaf k2 b) (Leaf k3 c)), st 5)"
    using t0 t2 p1 p3 p5 o1 nx [of 1] by (intro E_two) (auto simp: eval_nat_numeral)
  then have "E (st 0) = Inr (BINOP o1 (Leaf k1 a) (BINOP o2 (Leaf k2 b) (Leaf k3 c)), st 5)"
    unfolding p1 by simp
  then show ?thesis unfolding st_def ts_def .
qed

lemma multiplicative_first:
  assumes k: "k1 \<in> {''NUMBER'', ''ID''}" "k2 \<in> {''NUMBER'', ''ID''}" "k3 \<in> {''NUMBER'', ''ID''}"
    and o1: "o1 \<in> {''+'', ''-''}" and o2: "o2 \<in> {''*'', ''/''}"
  shows "E \<lparr>tokens = [(k1, a), (o2, o2), (k2, b), (o1, o1), (k3, c)], pos = 0\<rparr> =
    Inr (BINOP o1 (BINOP o2 (Leaf k1 a) (Leaf k2 b)) (Leaf k3 c),
         \<lparr>tokens = [(k1, a), (o2, o2), (k2, b), (o1, o1), (k3, c)], pos = 5\<rparr>)"
proof -
  define ts where "ts = [(k1, a), (o2, o2), (k2, b), (o1, o1), (k3, c)]"
  define st where "st n = \<lparr>tokens = ts, pos = n\<rparr>" for n
  have nx: "\<And>n. snd (next_tok (st n)) = st (Suc n)" by (simp add: st_def)
  have p1: "peek (st 1) = (o2, o2)" by (simp add: st_def ts_def peek_def)
  have p3: "peek (st 3) = (o1, o1)" by (simp add: st_def ts_def peek_def)
  have p5: "peek (st 5) = (''EOF'', [])" by (simp add: st_def ts_def peek_def)
  have f0: "F (st 0) = Inr (Leaf k1 a, st 1)"
    unfolding st_def using F_leaf_at [of 0 ts] k(1) by (simp add: ts_def)
  have f2: "F (st 2) = Inr (Leaf k2 b, st 3)"
    unfolding st_def using F_leaf_at [of 2 ts] k(2) by (simp add: ts_def eval_nat_numeral)
  have f4: "F (st 4) = Inr (Leaf k3 c, st 5)"
    unfolding st_def using F_leaf_at [of 4 ts] k(3) by (simp add: ts_def eval_nat_numeral)
  have t0: "T (st 0) = Inr (BINOP (fst (peek (st 1))) (Leaf k1 a) (Leaf k2 b), st 3)"
    using f0 f2 p1 p3 o1 o2 nx [of 1] by (intro T_two) (auto simp: eval_nat_numeral)
  have t4: "T (st 4) = Inr (Leaf k3 c, st 5)"
    using f4 p5 by (intro T_one) auto
  have "E (st 0) =
      Inr (BINOP (fst (peek (st 3))) (BINOP o2 (Leaf k1 a) (Leaf k2 b)) (Leaf k3 c), st 5)"
    using t0 t4 p1 p3 p5 o1 nx [of 3] by (intro E_two) (auto simp: eval_nat_numeral)
  then have "E (st 0) = Inr (BINOP o1 (BINOP o2 (Leaf k1 a) (Leaf k2 b)) (Leaf k3 c), st 5)"
    unfolding p3 by simp
  then show ?thesis unfolding st_def ts_def .
qed

lemma parenthesised_left:
  assumes k: "k1 \<in> {''NUMBER'', ''ID''}" "k2 \<in> {''NUMBER'', ''ID''}" "k3 \<in> {''NUMBER'', ''ID''}"
    and o1: "o1 \<in> {''+'', ''-'', ''*'', ''/''}" and o2: "o2 \<in> {''+'', ''-'', ''*'', ''/''}"
  shows "E \<lparr>tokens = [(''('', ''(''), (k1, a), (o1, o1), (k2, b), ('')'', '')''), (o2, o2),
                     (k3, c)], pos = 0\<rparr> =
    Inr (BINOP o2 (BINOP o1 (Leaf k1 a) (Leaf k2 b)) (Leaf k3 c),
         \<lparr>tokens = [(''('', ''(''), (k1, a), (o1, o1), (k2, b), ('')'', '')''), (o2, o2),
                     (k3, c)], pos = 7\<rparr>)"
proof -
  define ts where "ts = [(''('', ''(''), (k1, a), (o1, o1), (k2, b), ('')'', '')''), (o2, o2),
      (k3, c)]"
  define st where "st n = \<lparr>tokens = ts, pos = n\<rparr>" for n
  have nx: "\<And>n. snd (next_tok (st n)) = st (Suc n)" by (simp add: st_def)
  have p0: "peek (st 0) = (''('', ''('')" by (simp add: st_def ts_def peek_def)
  have p2: "peek (st 2) = (o1, o1)" by (simp add: st_def ts_def peek_def)
  have p4: "peek (st 4) = ('')'', '')'')" by (simp add: st_def ts_def peek_def)
  have p5: "peek (st 5) = (o2, o2)" by (simp add: st_def ts_def peek_def)
  have p7: "peek (st 7) = (''EOF'', [])" by (simp add: st_def ts_def peek_def)
  have f1: "F (st 1) = Inr (Leaf k1 a, st 2)"
    unfolding st_def using F_leaf_at [of 1 ts] k(1) by (simp add: ts_def eval_nat_numeral)
  have f3: "F (st 3) = Inr (Leaf k2 b, st 4)"
    unfolding st_def using F_leaf_at [of 3 ts] k(2) by (simp add: ts_def eval_nat_numeral)
  have f6: "F (st 6) = Inr (Leaf k3 c, st 7)"
    unfolding st_def using F_leaf_at [of 6 ts] k(3) by (simp add: ts_def eval_nat_numeral)
  have "E (st 1) = Inr (BINOP (fst (peek (st 2))) (Leaf k1 a) (Leaf k2 b), st 4)"
    using f1 f3 p2 p4 o1 nx [of 2] by (intro E_binary) (auto simp: eval_nat_numeral)
  then have e1: "E (st 1) = Inr (BINOP o1 (Leaf k1 a) (Leaf k2 b), st 4)"
    unfolding p2 by simp
  have "F (st 0) = Inr (BINOP o1 (Leaf k1 a) (Leaf k2 b), snd (next_tok (st 4)))"
    using p0 p4 e1 nx [of 0] by (intro F_paren_closed) auto
  then have f0: "F (st 0) = Inr (BINOP o1 (Leaf k1 a) (Leaf k2 b), st 5)"
    using nx [of 4] by (simp add: eval_nat_numeral)
  have "E (st 0) =
      Inr (BINOP (fst (peek (st 5))) (BINOP o1 (Leaf k1 a) (Leaf k2 b)) (Leaf k3 c), st 7)"
    using f0 f6 p5 p7 o2 nx [of 5] by (intro E_binary) (auto simp: eval_nat_numeral)
  then have "E (st 0) = Inr (BINOP o2 (BINOP o1 (Leaf k1 a) (Leaf k2 b)) (Leaf k3 c), st 7)"
    unfolding p5 by simp
  then show ?thesis unfolding st_def ts_def .
qed

lemma parenthesised_right:
  assumes k: "k1 \<in> {''NUMBER'', ''ID''}" "k2 \<in> {''NUMBER'', ''ID''}" "k3 \<in> {''NUMBER'', ''ID''}"
    and o1: "o1 \<in> {''+'', ''-'', ''*'', ''/''}" and o2: "o2 \<in> {''+'', ''-'', ''*'', ''/''}"
  shows "E \<lparr>tokens = [(k3, c), (o2, o2), (''('', ''(''), (k1, a), (o1, o1), (k2, b),
                     ('')'', '')'')], pos = 0\<rparr> =
    Inr (BINOP o2 (Leaf k3 c) (BINOP o1 (Leaf k1 a) (Leaf k2 b)),
         \<lparr>tokens = [(k3, c), (o2, o2), (''('', ''(''), (k1, a), (o1, o1), (k2, b),
                     ('')'', '')'')], pos = 7\<rparr>)"
proof -
  define ts where "ts = [(k3, c), (o2, o2), (''('', ''(''), (k1, a), (o1, o1), (k2, b),
      ('')'', '')'')]"
  define st where "st n = \<lparr>tokens = ts, pos = n\<rparr>" for n
  have nx: "\<And>n. snd (next_tok (st n)) = st (Suc n)" by (simp add: st_def)
  have p1: "peek (st 1) = (o2, o2)" by (simp add: st_def ts_def peek_def)
  have p2: "peek (st 2) = (''('', ''('')" by (simp add: st_def ts_def peek_def)
  have p4: "peek (st 4) = (o1, o1)" by (simp add: st_def ts_def peek_def)
  have p6: "peek (st 6) = ('')'', '')'')" by (simp add: st_def ts_def peek_def)
  have p7: "peek (st 7) = (''EOF'', [])" by (simp add: st_def ts_def peek_def)
  have f0: "F (st 0) = Inr (Leaf k3 c, st 1)"
    unfolding st_def using F_leaf_at [of 0 ts] k(3) by (simp add: ts_def)
  have f3: "F (st 3) = Inr (Leaf k1 a, st 4)"
    unfolding st_def using F_leaf_at [of 3 ts] k(1) by (simp add: ts_def eval_nat_numeral)
  have f5: "F (st 5) = Inr (Leaf k2 b, st 6)"
    unfolding st_def using F_leaf_at [of 5 ts] k(2) by (simp add: ts_def eval_nat_numeral)
  have "E (st 3) = Inr (BINOP (fst (peek (st 4))) (Leaf k1 a) (Leaf k2 b), st 6)"
    using f3 f5 p4 p6 o1 nx [of 4] by (intro E_binary) (auto simp: eval_nat_numeral)
  then have e3: "E (st 3) = Inr (BINOP o1 (Leaf k1 a) (Leaf k2 b), st 6)"
    unfolding p4 by simp
  have "F (st 2) = Inr (BINOP o1 (Leaf k1 a) (Leaf k2 b), snd (next_tok (st 6)))"
    using p2 p6 e3 nx [of 2] by (intro F_paren_closed) (auto simp: eval_nat_numeral)
  then have f2: "F (st 2) = Inr (BINOP o1 (Leaf k1 a) (Leaf k2 b), st 7)"
    using nx [of 6] by (simp add: eval_nat_numeral)
  have "E (st 0) =
      Inr (BINOP (fst (peek (st 1))) (Leaf k3 c) (BINOP o1 (Leaf k1 a) (Leaf k2 b)), st 7)"
    using f0 f2 p1 p7 o2 nx [of 1] by (intro E_binary) (auto simp: eval_nat_numeral)
  then have "E (st 0) = Inr (BINOP o2 (Leaf k3 c) (BINOP o1 (Leaf k1 a) (Leaf k2 b)), st 7)"
    unfolding p1 by simp
  then show ?thesis unfolding st_def ts_def .
qed

subsection \<open>The parser on a store of lexer objects\<close>

text \<open>
  The same five functions with the lexer as an object in a store: \<open>E_st a s\<close> works on
  the object at address \<open>a\<close> of the store \<open>s\<close>, \<^verbatim>\<open>lex.next()\<close> updates that object
  in place, and the store is returned with the tree or with the exception raised, so
  that what a call has changed is still there after it.
\<close>

type_synonym store = "nat \<Rightarrow> lexer"

definition peek_st :: "nat \<Rightarrow> store \<Rightarrow> token" where
  "peek_st a s = peek (s a)"

definition next_st :: "nat \<Rightarrow> store \<Rightarrow> token \<times> store" where
  "next_st a s = (let tok = peek_st a s in (tok, s(a := (s a)\<lparr>pos := pos (s a) + 1\<rparr>)))"

function E_st :: "nat \<Rightarrow> store \<Rightarrow> (error + node) \<times> store"
  and E_while_st :: "nat \<Rightarrow> node \<Rightarrow> store \<Rightarrow> (error + node) \<times> store"
  and T_st :: "nat \<Rightarrow> store \<Rightarrow> (error + node) \<times> store"
  and T_while_st :: "nat \<Rightarrow> node \<Rightarrow> store \<Rightarrow> (error + node) \<times> store"
  and F_st :: "nat \<Rightarrow> store \<Rightarrow> (error + node) \<times> store"
where
  "E_st a s =
     (case T_st a s of
        (r, s1) \<Rightarrow>
          (case r of
             Inl err \<Rightarrow> (Inl err, s1)
           | Inr node \<Rightarrow> E_while_st a node s1))"
| "E_while_st a node s =
     (if fst (peek_st a s) \<in> {''+'', ''-''}
      then (case next_st a s of
              (tok, s1) \<Rightarrow>
                (case T_st a s1 of
                   (r, s2) \<Rightarrow>
                     (case r of
                        Inl err \<Rightarrow> (Inl err, s2)
                      | Inr rhs \<Rightarrow> E_while_st a (BINOP (fst tok) node rhs) s2)))
      else (Inr node, s))"
| "T_st a s =
     (case F_st a s of
        (r, s1) \<Rightarrow>
          (case r of
             Inl err \<Rightarrow> (Inl err, s1)
           | Inr node \<Rightarrow> T_while_st a node s1))"
| "T_while_st a node s =
     (if fst (peek_st a s) \<in> {''*'', ''/''}
      then (case next_st a s of
              (tok, s1) \<Rightarrow>
                (case F_st a s1 of
                   (r, s2) \<Rightarrow>
                     (case r of
                        Inl err \<Rightarrow> (Inl err, s2)
                      | Inr rhs \<Rightarrow> T_while_st a (BINOP (fst tok) node rhs) s2)))
      else (Inr node, s))"
| "F_st a s =
     (let tok = peek_st a s in
      if fst tok = ''(''
      then (case next_st a s of
              (_, s1) \<Rightarrow>
                (case E_st a s1 of
                   (r, s2) \<Rightarrow>
                     (case r of
                        Inl err \<Rightarrow> (Inl err, s2)
                      | Inr node \<Rightarrow>
                          if fst (peek_st a s2) \<noteq> '')''
                          then (Inl (SyntaxError Faltando_paren), s2)
                          else (case next_st a s2 of (_, s3) \<Rightarrow> (Inr node, s3)))))
      else if fst tok = ''NUMBER''
      then (case next_st a s of (t, s1) \<Rightarrow> (Inr (Leaf ''NUMBER'' (snd t)), s1))
      else if fst tok = ''ID''
      then (case next_st a s of (t, s1) \<Rightarrow> (Inr (Leaf ''ID'' (snd t)), s1))
      else (Inl (SyntaxError (Token_inesperado tok)), s))"
  by pat_completeness auto

definition keeps :: "nat \<Rightarrow> store \<Rightarrow> (error + node) \<times> store \<Rightarrow> bool" where
  "keeps a s res = (tokens (snd res a) = tokens (s a) \<and> pos (s a) \<le> pos (snd res a))"

lemma keeps_refl [simp]: "keeps a s (r, s)"
  by (simp add: keeps_def)

lemma keeps_trans: "keeps a s (r, s1) \<Longrightarrow> keeps a s1 res \<Longrightarrow> keeps a s res"
  by (auto simp: keeps_def)

lemma next_st_eq:
  "next_st a s = (peek (s a), s(a := snd (next_tok (s a))))"
  by (simp add: next_st_def peek_st_def Let_def)

lemma keeps_next: "keeps a s (r, s(a := snd (next_tok (s a))))"
  by (simp add: keeps_def)

lemma keeps_partial:
  "E_st_E_while_st_T_st_T_while_st_F_st_dom (Inl (Inl (a1, s1))) \<Longrightarrow>
     keeps a1 s1 (E_st a1 s1)"
  "E_st_E_while_st_T_st_T_while_st_F_st_dom (Inl (Inr (a2, n2, s2))) \<Longrightarrow>
     keeps a2 s2 (E_while_st a2 n2 s2)"
  "E_st_E_while_st_T_st_T_while_st_F_st_dom (Inr (Inl (a3, s3))) \<Longrightarrow>
     keeps a3 s3 (T_st a3 s3)"
  "E_st_E_while_st_T_st_T_while_st_F_st_dom (Inr (Inr (Inl (a4, n4, s4)))) \<Longrightarrow>
     keeps a4 s4 (T_while_st a4 n4 s4)"
  "E_st_E_while_st_T_st_T_while_st_F_st_dom (Inr (Inr (Inr (a5, s5)))) \<Longrightarrow>
     keeps a5 s5 (F_st a5 s5)"
proof (induct rule: E_st_E_while_st_T_st_T_while_st_F_st.pinduct)
  case (1 a s)
  obtain r s1 where t: "T_st a s = (r, s1)" by (cases "T_st a s")
  have k1: "keeps a s (r, s1)" using 1(2) t by simp
  show ?case
  proof (cases r)
    case (Inl err)
    then show ?thesis using 1(1) t k1 by (simp add: E_st.psimps)
  next
    case (Inr node)
    have "keeps a s1 (E_while_st a node s1)"
      by (rule 1(3) [OF t [symmetric] Inr])
    then have "keeps a s (E_while_st a node s1)"
      using k1 by (rule keeps_trans [rotated])
    then show ?thesis using 1(1) t Inr by (simp add: E_st.psimps)
  qed
next
  case (2 a node s)
  show ?case
  proof (cases "fst (peek_st a s) \<in> {''+'', ''-''}")
    case False
    then show ?thesis using 2(1) by (simp add: E_while_st.psimps)
  next
    case True
    define s1 where "s1 = s(a := snd (next_tok (s a)))"
    have nt: "next_st a s = (peek (s a), s1)" by (simp add: next_st_eq s1_def)
    obtain r s2 where t: "T_st a s1 = (r, s2)" by (cases "T_st a s1")
    have k1: "keeps a s (r, s1)" unfolding s1_def by (rule keeps_next)
    have "keeps a s1 (T_st a s1)" by (rule 2(2) [OF True nt [symmetric]])
    then have k2: "keeps a s (r, s2)" using k1 t by (auto simp: keeps_def)
    have unfold: "E_while_st a node s =
        (case r of
           Inl err \<Rightarrow> (Inl err, s2)
         | Inr rhs \<Rightarrow> E_while_st a (BINOP (fst (peek (s a))) node rhs) s2)"
      using 2(1) True nt t by (simp add: E_while_st.psimps)
    show ?thesis
    proof (cases r)
      case (Inl err)
      then show ?thesis using unfold k2 by simp
    next
      case (Inr rhs)
      have "keeps a s2 (E_while_st a (BINOP (fst (peek (s a))) node rhs) s2)"
        using 2(3) [OF True nt [symmetric] t [symmetric] Inr] by simp
      then have "keeps a s (E_while_st a (BINOP (fst (peek (s a))) node rhs) s2)"
        using k2 by (rule keeps_trans [rotated])
      then show ?thesis using unfold Inr by simp
    qed
  qed
next
  case (3 a s)
  obtain r s1 where t: "F_st a s = (r, s1)" by (cases "F_st a s")
  have k1: "keeps a s (r, s1)" using 3(2) t by simp
  show ?case
  proof (cases r)
    case (Inl err)
    then show ?thesis using 3(1) t k1 by (simp add: T_st.psimps)
  next
    case (Inr node)
    have "keeps a s1 (T_while_st a node s1)"
      by (rule 3(3) [OF t [symmetric] Inr])
    then have "keeps a s (T_while_st a node s1)"
      using k1 by (rule keeps_trans [rotated])
    then show ?thesis using 3(1) t Inr by (simp add: T_st.psimps)
  qed
next
  case (4 a node s)
  show ?case
  proof (cases "fst (peek_st a s) \<in> {''*'', ''/''}")
    case False
    then show ?thesis using 4(1) by (simp add: T_while_st.psimps)
  next
    case True
    define s1 where "s1 = s(a := snd (next_tok (s a)))"
    have nt: "next_st a s = (peek (s a), s1)" by (simp add: next_st_eq s1_def)
    obtain r s2 where t: "F_st a s1 = (r, s2)" by (cases "F_st a s1")
    have k1: "keeps a s (r, s1)" unfolding s1_def by (rule keeps_next)
    have "keeps a s1 (F_st a s1)" by (rule 4(2) [OF True nt [symmetric]])
    then have k2: "keeps a s (r, s2)" using k1 t by (auto simp: keeps_def)
    have unfold: "T_while_st a node s =
        (case r of
           Inl err \<Rightarrow> (Inl err, s2)
         | Inr rhs \<Rightarrow> T_while_st a (BINOP (fst (peek (s a))) node rhs) s2)"
      using 4(1) True nt t by (simp add: T_while_st.psimps)
    show ?thesis
    proof (cases r)
      case (Inl err)
      then show ?thesis using unfold k2 by simp
    next
      case (Inr rhs)
      have "keeps a s2 (T_while_st a (BINOP (fst (peek (s a))) node rhs) s2)"
        using 4(3) [OF True nt [symmetric] t [symmetric] Inr] by simp
      then have "keeps a s (T_while_st a (BINOP (fst (peek (s a))) node rhs) s2)"
        using k2 by (rule keeps_trans [rotated])
      then show ?thesis using unfold Inr by simp
    qed
  qed
next
  case (5 a s)
  define s1 where "s1 = s(a := snd (next_tok (s a)))"
  have nt: "next_st a s = (peek (s a), s1)" by (simp add: next_st_eq s1_def)
  have k1: "\<And>r. keeps a s (r, s1)" unfolding s1_def by (rule keeps_next)
  show ?case
  proof (cases "fst (peek_st a s) = ''(''")
    case False
    then show ?thesis
      using 5(1) nt k1 by (simp add: F_st.psimps Let_def)
  next
    case True
    obtain r s2 where e: "E_st a s1 = (r, s2)" by (cases "E_st a s1")
    have "keeps a s1 (E_st a s1)"
      by (rule 5(2) [OF refl True nt [symmetric]])
    then have k2: "\<And>r'. keeps a s (r', s2)" using k1 e by (auto simp: keeps_def)
    have k3: "\<And>r'. keeps a s (r', s2(a := snd (next_tok (s2 a))))"
      using k2 by (auto simp: keeps_def)
    show ?thesis
      using 5(1) True nt e k2 k3
      by (cases r) (simp_all add: F_st.psimps Let_def next_st_eq)
  qed
qed

lemma keeps_remaining: "keeps a s (r, s1) \<Longrightarrow> remaining (s1 a) \<le> remaining (s a)"
  by (auto simp: keeps_def remaining_def)

lemma next_st_remaining:
  assumes "fst (peek_st a s) \<noteq> ''EOF''" and "(x, y) = next_st a s"
  shows "remaining (y a) < remaining (s a)"
  using assms peek_kind_in_range [of "s a"]
  by (auto simp: next_st_eq peek_st_def remaining_def)

lemma E_st_total: "All E_st_E_while_st_T_st_T_while_st_F_st_dom"
proof (relation "inv_image (less_than <*lex*> less_than)
     (\<lambda>c. case c of
        Inl (Inl (a, s)) \<Rightarrow> (remaining (s a), 4::nat)
      | Inl (Inr (a, node, s)) \<Rightarrow> (remaining (s a), 3)
      | Inr (Inl (a, s)) \<Rightarrow> (remaining (s a), 2)
      | Inr (Inr (Inl (a, node, s))) \<Rightarrow> (remaining (s a), 1)
      | Inr (Inr (Inr (a, s))) \<Rightarrow> (remaining (s a), 0))", goal_cases)
  case 1
  show ?case by (intro wf_inv_image wf_lex_prod wf_less_than)
next
  case (2 a s)
  show ?case by simp
next
  case (3 a s x y b)
  have "keeps a s (T_st a s)" by (rule keeps_partial(3) [OF 3(3)])
  then have "remaining (y a) \<le> remaining (s a)"
    using 3(1) [symmetric] by (auto dest: keeps_remaining)
  then show ?case by auto
next
  case (4 a node s x y)
  have "fst (peek_st a s) \<noteq> ''EOF''" using 4(1) by auto
  then have "remaining (y a) < remaining (s a)" using 4(2) by (rule next_st_remaining)
  then show ?case by simp
next
  case (5 a node s x y xa ya b)
  have "fst (peek_st a s) \<noteq> ''EOF''" using 5(1) by auto
  then have lt: "remaining (y a) < remaining (s a)" using 5(2) by (rule next_st_remaining)
  have "keeps a y (T_st a y)" by (rule keeps_partial(3) [OF 5(5)])
  then have "remaining (ya a) \<le> remaining (y a)"
    using 5(3) [symmetric] by (auto dest: keeps_remaining)
  then show ?case using lt by simp
next
  case (6 a s)
  show ?case by simp
next
  case (7 a s x y b)
  have "keeps a s (F_st a s)" by (rule keeps_partial(5) [OF 7(3)])
  then have "remaining (y a) \<le> remaining (s a)"
    using 7(1) [symmetric] by (auto dest: keeps_remaining)
  then show ?case by auto
next
  case (8 a node s x y)
  have "fst (peek_st a s) \<noteq> ''EOF''" using 8(1) by auto
  then have "remaining (y a) < remaining (s a)" using 8(2) by (rule next_st_remaining)
  then show ?case by simp
next
  case (9 a node s x y xa ya b)
  have "fst (peek_st a s) \<noteq> ''EOF''" using 9(1) by auto
  then have lt: "remaining (y a) < remaining (s a)" using 9(2) by (rule next_st_remaining)
  have "keeps a y (F_st a y)" by (rule keeps_partial(5) [OF 9(5)])
  then have "remaining (ya a) \<le> remaining (y a)"
    using 9(3) [symmetric] by (auto dest: keeps_remaining)
  then show ?case using lt by simp
next
  case (10 a s x xa y)
  have "fst (peek_st a s) \<noteq> ''EOF''" using 10(1) 10(2) by auto
  then have "remaining (y a) < remaining (s a)" using 10(3) by (rule next_st_remaining)
  then show ?case by simp
qed

termination E_st
  by (rule E_st_total)

declare E_st.simps [simp del] E_while_st.simps [simp del] T_st.simps [simp del]
  T_while_st.simps [simp del] F_st.simps [simp del]

definition agrees ::
  "(error + node) \<times> store \<Rightarrow> nat \<Rightarrow> store \<Rightarrow> error + node \<times> lexer \<Rightarrow> bool" where
  "agrees res a s r =
     (case r of
        Inl err \<Rightarrow> fst res = Inl err
      | Inr (node, lx) \<Rightarrow> res = (Inr node, s(a := lx)))"

lemma agrees_Inl [simp]: "agrees res a s (Inl err) = (fst res = Inl err)"
  by (simp add: agrees_def)

lemma agrees_Inr [simp]: "agrees res a s (Inr (node, lx)) = (res = (Inr node, s(a := lx)))"
  by (simp add: agrees_def)

lemma agrees_upd: "agrees res a (s(a := l)) r \<Longrightarrow> agrees res a s r"
  by (cases r) auto

lemma agrees_all:
  "agrees (E_st a1 s1) a1 s1 (E (s1 a1))"
  "agrees (E_while_st a2 n2 s2) a2 s2 (E_while n2 (s2 a2))"
  "agrees (T_st a3 s3) a3 s3 (T (s3 a3))"
  "agrees (T_while_st a4 n4 s4) a4 s4 (T_while n4 (s4 a4))"
  "agrees (F_st a5 s5) a5 s5 (F (s5 a5))"
proof (induct a1 s1 and a2 n2 s2 and a3 s3 and a4 n4 s4 and a5 s5
    rule: E_st_E_while_st_T_st_T_while_st_F_st.induct)
  case (1 a s)
  show ?case
  proof (cases "T (s a)")
    case (Inl err)
    then have "fst (T_st a s) = Inl err" using 1(1) by simp
    then show ?thesis
      using Inl by (cases "T_st a s") (simp add: E_st.simps [of a s] E.simps [of "s a"])
  next
    case (Inr p)
    obtain node lx1 where p: "p = (node, lx1)" by (cases p)
    have t: "T_st a s = (Inr node, s(a := lx1))" using 1(1) Inr p by simp
    have "agrees (E_while_st a node (s(a := lx1))) a (s(a := lx1))
        (E_while node ((s(a := lx1)) a))"
      by (rule 1(2) [OF t [symmetric] refl])
    then have "agrees (E_while_st a node (s(a := lx1))) a s (E_while node lx1)"
      using agrees_upd by fastforce
    then show ?thesis
      using t Inr p by (simp add: E_st.simps [of a s] E.simps [of "s a"])
  qed
next
  case (2 a node s)
  show ?case
  proof (cases "fst (peek (s a)) \<in> {''+'', ''-''}")
    case False
    then show ?thesis
      by (simp add: E_while_st.simps [of a node s] E_while_stop peek_st_def)
  next
    case True
    then have c: "fst (peek_st a s) \<in> {''+'', ''-''}" by (simp add: peek_st_def)
    define u where "u = s(a := snd (next_tok (s a)))"
    have nt: "next_st a s = (peek (s a), u)" by (simp add: next_st_eq u_def)
    have ua: "u a = snd (next_tok (s a))" by (simp add: u_def)
    have ih1: "agrees (T_st a u) a u (T (u a))" by (rule 2(1) [OF c nt [symmetric]])
    obtain r s2 where t: "T_st a u = (r, s2)" by (cases "T_st a u")
    have lhs: "E_while_st a node s =
        (case r of
           Inl err \<Rightarrow> (Inl err, s2)
         | Inr rhs \<Rightarrow> E_while_st a (BINOP (fst (peek (s a))) node rhs) s2)"
      using c nt t by (simp add: E_while_st.simps [of a node s])
    show ?thesis
    proof (cases "T (u a)")
      case (Inl err)
      then have "r = Inl err" using ih1 t by simp
      then show ?thesis
        using lhs Inl ua E_while_step [OF True, of node] by simp
    next
      case (Inr p)
      obtain rhs lx2 where p: "p = (rhs, lx2)" by (cases p)
      have t': "r = Inr rhs" "s2 = u(a := lx2)" using ih1 t Inr p by simp_all
      have "agrees (E_while_st a (BINOP (fst (peek (s a))) node rhs) s2) a s2
          (E_while (BINOP (fst (peek (s a))) node rhs) (s2 a))"
        using 2(2) [OF c nt [symmetric] t [symmetric] t'(1)] by simp
      then have "agrees (E_while_st a (BINOP (fst (peek (s a))) node rhs) s2) a s
          (E_while (BINOP (fst (peek (s a))) node rhs) lx2)"
        unfolding t'(2) u_def using agrees_upd by fastforce
      then show ?thesis
        using lhs t'(1) Inr p ua E_while_step [OF True, of node] by simp
    qed
  qed
next
  case (3 a s)
  show ?case
  proof (cases "F (s a)")
    case (Inl err)
    then have "fst (F_st a s) = Inl err" using 3(1) by simp
    then show ?thesis
      using Inl by (cases "F_st a s") (simp add: T_st.simps [of a s] T.simps [of "s a"])
  next
    case (Inr p)
    obtain node lx1 where p: "p = (node, lx1)" by (cases p)
    have t: "F_st a s = (Inr node, s(a := lx1))" using 3(1) Inr p by simp
    have "agrees (T_while_st a node (s(a := lx1))) a (s(a := lx1))
        (T_while node ((s(a := lx1)) a))"
      by (rule 3(2) [OF t [symmetric] refl])
    then have "agrees (T_while_st a node (s(a := lx1))) a s (T_while node lx1)"
      using agrees_upd by fastforce
    then show ?thesis
      using t Inr p by (simp add: T_st.simps [of a s] T.simps [of "s a"])
  qed
next
  case (4 a node s)
  show ?case
  proof (cases "fst (peek (s a)) \<in> {''*'', ''/''}")
    case False
    then show ?thesis
      by (simp add: T_while_st.simps [of a node s] T_while_stop peek_st_def)
  next
    case True
    then have c: "fst (peek_st a s) \<in> {''*'', ''/''}" by (simp add: peek_st_def)
    define u where "u = s(a := snd (next_tok (s a)))"
    have nt: "next_st a s = (peek (s a), u)" by (simp add: next_st_eq u_def)
    have ua: "u a = snd (next_tok (s a))" by (simp add: u_def)
    have ih1: "agrees (F_st a u) a u (F (u a))" by (rule 4(1) [OF c nt [symmetric]])
    obtain r s2 where t: "F_st a u = (r, s2)" by (cases "F_st a u")
    have lhs: "T_while_st a node s =
        (case r of
           Inl err \<Rightarrow> (Inl err, s2)
         | Inr rhs \<Rightarrow> T_while_st a (BINOP (fst (peek (s a))) node rhs) s2)"
      using c nt t by (simp add: T_while_st.simps [of a node s])
    show ?thesis
    proof (cases "F (u a)")
      case (Inl err)
      then have "r = Inl err" using ih1 t by simp
      then show ?thesis
        using lhs Inl ua T_while_step [OF True, of node] by simp
    next
      case (Inr p)
      obtain rhs lx2 where p: "p = (rhs, lx2)" by (cases p)
      have t': "r = Inr rhs" "s2 = u(a := lx2)" using ih1 t Inr p by simp_all
      have "agrees (T_while_st a (BINOP (fst (peek (s a))) node rhs) s2) a s2
          (T_while (BINOP (fst (peek (s a))) node rhs) (s2 a))"
        using 4(2) [OF c nt [symmetric] t [symmetric] t'(1)] by simp
      then have "agrees (T_while_st a (BINOP (fst (peek (s a))) node rhs) s2) a s
          (T_while (BINOP (fst (peek (s a))) node rhs) lx2)"
        unfolding t'(2) u_def using agrees_upd by fastforce
      then show ?thesis
        using lhs t'(1) Inr p ua T_while_step [OF True, of node] by simp
    qed
  qed
next
  case (5 a s)
  define u where "u = s(a := snd (next_tok (s a)))"
  have nt: "next_st a s = (peek (s a), u)" by (simp add: next_st_eq u_def)
  have ua: "u a = snd (next_tok (s a))" by (simp add: u_def)
  show ?case
  proof (cases "fst (peek (s a)) = ''(''")
    case False
    then show ?thesis
      using nt
      by (simp add: F_st.simps [of a s] F.simps [of "s a"] Let_def peek_st_def u_def
          next_tok_def)
  next
    case True
    then have c: "fst (peek_st a s) = ''(''" by (simp add: peek_st_def)
    have ih: "agrees (E_st a u) a u (E (u a))"
      by (rule 5 [OF refl c nt [symmetric]])
    obtain r s2 where e: "E_st a u = (r, s2)" by (cases "E_st a u")
    have lhs: "F_st a s =
        (case r of
           Inl err \<Rightarrow> (Inl err, s2)
         | Inr node \<Rightarrow>
             if fst (peek (s2 a)) \<noteq> '')'' then (Inl (SyntaxError Faltando_paren), s2)
             else (Inr node, s2(a := snd (next_tok (s2 a)))))"
      using c nt e
      by (simp add: F_st.simps [of a s] Let_def next_st_eq peek_st_def split: sum.splits)
    show ?thesis
    proof (cases "E (u a)")
      case (Inl err)
      then have "r = Inl err" using ih e by simp
      then show ?thesis using lhs Inl ua F_paren [OF True] by simp
    next
      case (Inr p)
      obtain node lx2 where p: "p = (node, lx2)" by (cases p)
      have e': "r = Inr node" "s2 = u(a := lx2)" using ih e Inr p by simp_all
      show ?thesis
        using lhs e' Inr p ua F_paren [OF True] by (simp add: u_def)
    qed
  qed
qed

text \<open>
  A world is the store with the next unused address. \<^verbatim>\<open>Lexer(text)\<close> puts a new
  object at that address; \<^verbatim>\<open>parse_expression(text)\<close> builds its lexer object, parses
  on it and leaves it in the store.
\<close>

record world =
  objs :: store
  fresh :: nat

definition Lexer_st :: "string \<Rightarrow> world \<Rightarrow> (error + nat) \<times> world" where
  "Lexer_st text w =
     (let a = fresh w in
      case Lexer text of
        Inl err \<Rightarrow> (Inl err, w\<lparr>fresh := a + 1\<rparr>)
      | Inr lx \<Rightarrow> (Inr a, \<lparr>objs = (objs w)(a := lx), fresh = a + 1\<rparr>))"

definition parse_expression_st :: "string \<Rightarrow> world \<Rightarrow> (error + node) \<times> world" where
  "parse_expression_st text w =
     (case Lexer_st text w of
        (r, w1) \<Rightarrow>
          (case r of
             Inl err \<Rightarrow> (Inl err, w1)
           | Inr a \<Rightarrow>
               (case E_st a (objs w1) of
                  (r2, s2) \<Rightarrow>
                    (case r2 of
                       Inl err \<Rightarrow> (Inl err, w1\<lparr>objs := s2\<rparr>)
                     | Inr tree \<Rightarrow>
                         if fst (peek_st a s2) \<noteq> ''EOF''
                         then (Inl (SyntaxError Entrada_extra), w1\<lparr>objs := s2\<rparr>)
                         else (Inr tree, w1\<lparr>objs := s2\<rparr>)))))"

lemma parse_expression_st_result:
  "fst (parse_expression_st text w) = parse_expression text"
proof -
  define lx0 where "lx0 = \<lparr>tokens = token_seq text, pos = 0\<rparr>"
  define a where "a = fresh w"
  define s1 where "s1 = (objs w)(a := lx0)"
  have l: "Lexer text = Inr lx0" by (simp add: Lexer_total lx0_def)
  have ls: "Lexer_st text w = (Inr a, \<lparr>objs = s1, fresh = a + 1\<rparr>)"
    by (simp add: Lexer_st_def l a_def s1_def Let_def)
  have ag: "agrees (E_st a s1) a s1 (E lx0)"
    using agrees_all(1) [of a s1] by (simp add: s1_def)
  obtain r2 s2 where e: "E_st a s1 = (r2, s2)" by (cases "E_st a s1")
  show ?thesis
  proof (cases "E lx0")
    case (Inl err)
    then have "r2 = Inl err" using ag e by simp
    then show ?thesis
      using ls e l Inl by (simp add: parse_expression_st_def parse_expression_def)
  next
    case (Inr p)
    obtain tree lx1 where p: "p = (tree, lx1)" by (cases p)
    have "r2 = Inr tree" "s2 = s1(a := lx1)" using ag e Inr p by simp_all
    then show ?thesis
      using ls e l Inr p
      by (simp add: parse_expression_st_def parse_expression_def peek_st_def)
  qed
qed

lemma parse_expression_st_fresh:
  "fresh (snd (parse_expression_st text w)) = Suc (fresh w)"
  by (simp add: parse_expression_st_def Lexer_st_def Let_def Lexer_total
      split: prod.splits sum.splits)

section \<open>Properties\<close>

text \<open>
  C1. Operator precedence comes from the layering of \<open>E\<close>, \<open>T\<close> and \<open>F\<close>: the
  operands of \<^verbatim>\<open>+\<close> and \<^verbatim>\<open>-\<close> are whole terms and the operands of \<^verbatim>\<open>*\<close> and
  \<^verbatim>\<open>/\<close> are factors. So for any three leaf tokens, an additive operator followed by a
  multiplicative one gives the tree of \<open>x + (y * z)\<close>, and a multiplicative operator
  followed by an additive one gives the tree of \<open>(x * y) + z\<close>;
  \<^verbatim>\<open>parse_expression("a + b * c")\<close> returns the tree of \<open>a + (b * c)\<close>.
\<close>

theorem precedence_by_layering:
  "parse_expression ''a + b * c'' =
     Inr (BINOP ''+'' (Leaf ''ID'' ''a'')
            (BINOP ''*'' (Leaf ''ID'' ''b'') (Leaf ''ID'' ''c'')))
   \<and> (Lexer text = Inr \<lparr>tokens = [(k1, a), (o1, o1), (k2, b), (o2, o2), (k3, c)], pos = 0\<rparr> \<longrightarrow>
        k1 \<in> {''NUMBER'', ''ID''} \<longrightarrow> k2 \<in> {''NUMBER'', ''ID''} \<longrightarrow> k3 \<in> {''NUMBER'', ''ID''} \<longrightarrow>
        o1 \<in> {''+'', ''-''} \<longrightarrow> o2 \<in> {''*'', ''/''} \<longrightarrow>
        parse_expression text =
          Inr (BINOP o1 (Leaf k1 a) (BINOP o2 (Leaf k2 b) (Leaf k3 c))))
   \<and> (Lexer text = Inr \<lparr>tokens = [(k1, a), (o2, o2), (k2, b), (o1, o1), (k3, c)], pos = 0\<rparr> \<longrightarrow>
        k1 \<in> {''NUMBER'', ''ID''} \<longrightarrow> k2 \<in> {''NUMBER'', ''ID''} \<longrightarrow> k3 \<in> {''NUMBER'', ''ID''} \<longrightarrow>
        o1 \<in> {''+'', ''-''} \<longrightarrow> o2 \<in> {''*'', ''/''} \<longrightarrow>
        parse_expression text =
          Inr (BINOP o1 (BINOP o2 (Leaf k1 a) (Leaf k2 b)) (Leaf k3 c)))
   \<and> (T lx = Inr (x, lx1) \<longrightarrow> fst (peek lx1) \<in> {''+'', ''-''} \<longrightarrow>
        T (snd (next_tok lx1)) = Inr (y, lx2) \<longrightarrow> fst (peek lx2) \<notin> {''+'', ''-''} \<longrightarrow>
        E lx = Inr (BINOP (fst (peek lx1)) x y, lx2))
   \<and> (F lx = Inr (x, lx1) \<longrightarrow> fst (peek lx1) \<in> {''*'', ''/''} \<longrightarrow>
        F (snd (next_tok lx1)) = Inr (y, lx2) \<longrightarrow> fst (peek lx2) \<notin> {''*'', ''/''} \<longrightarrow>
        T lx = Inr (BINOP (fst (peek lx1)) x y, lx2))"
proof -
  have c: "parse_expression ''a + b * c'' =
     Inr (BINOP ''+'' (Leaf ''ID'' ''a'')
            (BINOP ''*'' (Leaf ''ID'' ''b'') (Leaf ''ID'' ''c'')))"
    by code_simp
  have s1: "parse_expression text =
          Inr (BINOP o1 (Leaf k1 a) (BINOP o2 (Leaf k2 b) (Leaf k3 c)))"
    if "Lexer text = Inr \<lparr>tokens = [(k1, a), (o1, o1), (k2, b), (o2, o2), (k3, c)], pos = 0\<rparr>"
      "k1 \<in> {''NUMBER'', ''ID''}" "k2 \<in> {''NUMBER'', ''ID''}" "k3 \<in> {''NUMBER'', ''ID''}"
      "o1 \<in> {''+'', ''-''}" "o2 \<in> {''*'', ''/''}"
    using that(1) additive_first [OF that(2-6), of a b c]
    by (rule parse_expression_tree) (simp add: peek_def)
  have s2: "parse_expression text =
          Inr (BINOP o1 (BINOP o2 (Leaf k1 a) (Leaf k2 b)) (Leaf k3 c))"
    if "Lexer text = Inr \<lparr>tokens = [(k1, a), (o2, o2), (k2, b), (o1, o1), (k3, c)], pos = 0\<rparr>"
      "k1 \<in> {''NUMBER'', ''ID''}" "k2 \<in> {''NUMBER'', ''ID''}" "k3 \<in> {''NUMBER'', ''ID''}"
      "o1 \<in> {''+'', ''-''}" "o2 \<in> {''*'', ''/''}"
    using that(1) multiplicative_first [OF that(2-6), of a b c]
    by (rule parse_expression_tree) (simp add: peek_def)
  show ?thesis
    using c s1 s2 E_two [of lx x lx1 y lx2] T_two [of lx x lx1 y lx2] by blast
qed

theorem precedence_by_layering_witness:
  "Lexer ''x - 2 / y'' =
     Inr \<lparr>tokens = [(''ID'', ''x''), (''-'', ''-''), (''NUMBER'', ''2''), (''/'', ''/''),
                     (''ID'', ''y'')], pos = 0\<rparr>
   \<and> parse_expression ''x - 2 / y'' =
       Inr (BINOP ''-'' (Leaf ''ID'' ''x'') (BINOP ''/'' (Leaf ''NUMBER'' ''2'') (Leaf ''ID'' ''y'')))
   \<and> Lexer ''x / 2 - y'' =
     Inr \<lparr>tokens = [(''ID'', ''x''), (''/'', ''/''), (''NUMBER'', ''2''), (''-'', ''-''),
                     (''ID'', ''y'')], pos = 0\<rparr>
   \<and> parse_expression ''x / 2 - y'' =
       Inr (BINOP ''-'' (BINOP ''/'' (Leaf ''ID'' ''x'') (Leaf ''NUMBER'' ''2'')) (Leaf ''ID'' ''y''))"
proof -
  have l1: "Lexer ''x - 2 / y'' =
     Inr \<lparr>tokens = [(''ID'', ''x''), (''-'', ''-''), (''NUMBER'', ''2''), (''/'', ''/''),
                     (''ID'', ''y'')], pos = 0\<rparr>"
    by code_simp
  have l2: "Lexer ''x / 2 - y'' =
     Inr \<lparr>tokens = [(''ID'', ''x''), (''/'', ''/''), (''NUMBER'', ''2''), (''-'', ''-''),
                     (''ID'', ''y'')], pos = 0\<rparr>"
    by code_simp
  have k: "''ID'' \<in> {''NUMBER'', ''ID''}" "''NUMBER'' \<in> {''NUMBER'', ''ID''}"
    "''-'' \<in> {''+'', ''-''}" "''/'' \<in> {''*'', ''/''}"
    by simp_all
  have p1: "parse_expression ''x - 2 / y'' =
       Inr (BINOP ''-'' (Leaf ''ID'' ''x'') (BINOP ''/'' (Leaf ''NUMBER'' ''2'') (Leaf ''ID'' ''y'')))"
    using precedence_by_layering [of "''x - 2 / y''" "''ID''" "''x''" "''-''" "''NUMBER''" "''2''"
        "''/''" "''ID''" "''y''"] l1 k
    by blast
  have p2: "parse_expression ''x / 2 - y'' =
       Inr (BINOP ''-'' (BINOP ''/'' (Leaf ''ID'' ''x'') (Leaf ''NUMBER'' ''2'')) (Leaf ''ID'' ''y''))"
    using precedence_by_layering [of "''x / 2 - y''" "''ID''" "''x''" "''-''" "''NUMBER''" "''2''"
        "''/''" "''ID''" "''y''"] l2 k
    by blast
  show ?thesis using l1 l2 p1 p2 by blast
qed

text \<open>
  C6. Parentheses override precedence: at \<^verbatim>\<open>(\<close> the function \<open>F\<close> returns the tree of
  the enclosed expression as one factor and goes on after the \<^verbatim>\<open>)\<close>. So a
  parenthesised operation of two leaf tokens is one operand of the operator next to it,
  to its left or to its right, whichever of the four operators stand inside and outside;
  \<^verbatim>\<open>parse_expression("(a + b) * c")\<close> returns the tree of \<open>(a + b) * c\<close>.
\<close>

theorem parentheses_override_precedence:
  "parse_expression ''(a + b) * c'' =
     Inr (BINOP ''*'' (BINOP ''+'' (Leaf ''ID'' ''a'') (Leaf ''ID'' ''b''))
            (Leaf ''ID'' ''c''))
   \<and> (fst (peek lx) = ''('' \<longrightarrow> E (snd (next_tok lx)) = Inr (node, lx2) \<longrightarrow>
        fst (peek lx2) = '')'' \<longrightarrow> F lx = Inr (node, snd (next_tok lx2)))
   \<and> (Lexer text =
         Inr \<lparr>tokens = [(''('', ''(''), (k1, a), (o1, o1), (k2, b), ('')'', '')''), (o2, o2),
                         (k3, c)], pos = 0\<rparr> \<longrightarrow>
        k1 \<in> {''NUMBER'', ''ID''} \<longrightarrow> k2 \<in> {''NUMBER'', ''ID''} \<longrightarrow> k3 \<in> {''NUMBER'', ''ID''} \<longrightarrow>
        o1 \<in> {''+'', ''-'', ''*'', ''/''} \<longrightarrow> o2 \<in> {''+'', ''-'', ''*'', ''/''} \<longrightarrow>
        parse_expression text =
          Inr (BINOP o2 (BINOP o1 (Leaf k1 a) (Leaf k2 b)) (Leaf k3 c)))
   \<and> (Lexer text =
         Inr \<lparr>tokens = [(k3, c), (o2, o2), (''('', ''(''), (k1, a), (o1, o1), (k2, b),
                         ('')'', '')'')], pos = 0\<rparr> \<longrightarrow>
        k1 \<in> {''NUMBER'', ''ID''} \<longrightarrow> k2 \<in> {''NUMBER'', ''ID''} \<longrightarrow> k3 \<in> {''NUMBER'', ''ID''} \<longrightarrow>
        o1 \<in> {''+'', ''-'', ''*'', ''/''} \<longrightarrow> o2 \<in> {''+'', ''-'', ''*'', ''/''} \<longrightarrow>
        parse_expression text =
          Inr (BINOP o2 (Leaf k3 c) (BINOP o1 (Leaf k1 a) (Leaf k2 b))))"
proof -
  have c: "parse_expression ''(a + b) * c'' =
     Inr (BINOP ''*'' (BINOP ''+'' (Leaf ''ID'' ''a'') (Leaf ''ID'' ''b''))
            (Leaf ''ID'' ''c''))"
    by code_simp
  have s1: "parse_expression text =
          Inr (BINOP o2 (BINOP o1 (Leaf k1 a) (Leaf k2 b)) (Leaf k3 c))"
    if "Lexer text =
         Inr \<lparr>tokens = [(''('', ''(''), (k1, a), (o1, o1), (k2, b), ('')'', '')''), (o2, o2),
                         (k3, c)], pos = 0\<rparr>"
      "k1 \<in> {''NUMBER'', ''ID''}" "k2 \<in> {''NUMBER'', ''ID''}" "k3 \<in> {''NUMBER'', ''ID''}"
      "o1 \<in> {''+'', ''-'', ''*'', ''/''}" "o2 \<in> {''+'', ''-'', ''*'', ''/''}"
    using that(1) parenthesised_left [OF that(2-6), of a b c]
    by (rule parse_expression_tree) (simp add: peek_def)
  have s2: "parse_expression text =
          Inr (BINOP o2 (Leaf k3 c) (BINOP o1 (Leaf k1 a) (Leaf k2 b)))"
    if "Lexer text =
         Inr \<lparr>tokens = [(k3, c), (o2, o2), (''('', ''(''), (k1, a), (o1, o1), (k2, b),
                         ('')'', '')'')], pos = 0\<rparr>"
      "k1 \<in> {''NUMBER'', ''ID''}" "k2 \<in> {''NUMBER'', ''ID''}" "k3 \<in> {''NUMBER'', ''ID''}"
      "o1 \<in> {''+'', ''-'', ''*'', ''/''}" "o2 \<in> {''+'', ''-'', ''*'', ''/''}"
    using that(1) parenthesised_right [OF that(2-6), of c a b]
    by (rule parse_expression_tree) (simp add: peek_def)
  show ?thesis
    using c s1 s2 F_paren_closed [of lx node lx2] by blast
qed

theorem parentheses_override_precedence_witness:
  "Lexer ''(p - 2) / q'' =
     Inr \<lparr>tokens = [(''('', ''(''), (''ID'', ''p''), (''-'', ''-''), (''NUMBER'', ''2''),
                     ('')'', '')''), (''/'', ''/''), (''ID'', ''q'')], pos = 0\<rparr>
   \<and> parse_expression ''(p - 2) / q'' =
       Inr (BINOP ''/'' (BINOP ''-'' (Leaf ''ID'' ''p'') (Leaf ''NUMBER'' ''2'')) (Leaf ''ID'' ''q''))
   \<and> Lexer ''q / (p - 2)'' =
     Inr \<lparr>tokens = [(''ID'', ''q''), (''/'', ''/''), (''('', ''(''), (''ID'', ''p''),
                     (''-'', ''-''), (''NUMBER'', ''2''), ('')'', '')'')], pos = 0\<rparr>
   \<and> parse_expression ''q / (p - 2)'' =
       Inr (BINOP ''/'' (Leaf ''ID'' ''q'') (BINOP ''-'' (Leaf ''ID'' ''p'') (Leaf ''NUMBER'' ''2'')))
   \<and> fst (peek \<lparr>tokens = [(''('', ''(''), (''ID'', ''p''), ('')'', '')'')], pos = 0\<rparr>) = ''(''
   \<and> E (snd (next_tok \<lparr>tokens = [(''('', ''(''), (''ID'', ''p''), ('')'', '')'')], pos = 0\<rparr>)) =
       Inr (Leaf ''ID'' ''p'', \<lparr>tokens = [(''('', ''(''), (''ID'', ''p''), ('')'', '')'')], pos = 2\<rparr>)
   \<and> fst (peek \<lparr>tokens = [(''('', ''(''), (''ID'', ''p''), ('')'', '')'')], pos = 2\<rparr>) = '')''
   \<and> F \<lparr>tokens = [(''('', ''(''), (''ID'', ''p''), ('')'', '')'')], pos = 0\<rparr> =
       Inr (Leaf ''ID'' ''p'', \<lparr>tokens = [(''('', ''(''), (''ID'', ''p''), ('')'', '')'')], pos = 3\<rparr>)"
proof -
  have l1: "Lexer ''(p - 2) / q'' =
     Inr \<lparr>tokens = [(''('', ''(''), (''ID'', ''p''), (''-'', ''-''), (''NUMBER'', ''2''),
                     ('')'', '')''), (''/'', ''/''), (''ID'', ''q'')], pos = 0\<rparr>"
    by code_simp
  have l2: "Lexer ''q / (p - 2)'' =
     Inr \<lparr>tokens = [(''ID'', ''q''), (''/'', ''/''), (''('', ''(''), (''ID'', ''p''),
                     (''-'', ''-''), (''NUMBER'', ''2''), ('')'', '')'')], pos = 0\<rparr>"
    by code_simp
  have k: "''ID'' \<in> {''NUMBER'', ''ID''}" "''NUMBER'' \<in> {''NUMBER'', ''ID''}"
    "''-'' \<in> {''+'', ''-'', ''*'', ''/''}" "''/'' \<in> {''+'', ''-'', ''*'', ''/''}"
    by simp_all
  define z0 where "z0 = \<lparr>tokens = [(''('', ''(''), (''ID'', ''p''), ('')'', '')'')], pos = 0\<rparr>"
  define z2 where "z2 = \<lparr>tokens = [(''('', ''(''), (''ID'', ''p''), ('')'', '')'')], pos = 2\<rparr>"
  define z3 where "z3 = \<lparr>tokens = [(''('', ''(''), (''ID'', ''p''), ('')'', '')'')], pos = 3\<rparr>"
  have a0: "fst (peek z0) = ''(''" unfolding z0_def by code_simp
  have a1: "E (snd (next_tok z0)) = Inr (Leaf ''ID'' ''p'', z2)"
    unfolding z0_def z2_def by code_simp
  have a2: "fst (peek z2) = '')''" unfolding z2_def by code_simp
  have a3: "snd (next_tok z2) = z3" unfolding z2_def z3_def by simp
  have p1: "parse_expression ''(p - 2) / q'' =
       Inr (BINOP ''/'' (BINOP ''-'' (Leaf ''ID'' ''p'') (Leaf ''NUMBER'' ''2'')) (Leaf ''ID'' ''q''))"
    using parentheses_override_precedence [of _ _ _ "''(p - 2) / q''" "''ID''" "''p''" "''-''"
        "''NUMBER''" "''2''" "''/''" "''ID''" "''q''"] l1 k
    by blast
  have p2: "parse_expression ''q / (p - 2)'' =
       Inr (BINOP ''/'' (Leaf ''ID'' ''q'') (BINOP ''-'' (Leaf ''ID'' ''p'') (Leaf ''NUMBER'' ''2'')))"
    using parentheses_override_precedence [of _ _ _ "''q / (p - 2)''" "''ID''" "''p''" "''-''"
        "''NUMBER''" "''2''" "''/''" "''ID''" "''q''"] l2 k
    by blast
  have "F z0 = Inr (Leaf ''ID'' ''p'', snd (next_tok z2))"
    using parentheses_override_precedence [of z0 "Leaf ''ID'' ''p''" z2] a0 a1 a2 by blast
  then have f: "F z0 = Inr (Leaf ''ID'' ''p'', z3)" unfolding a3 .
  show ?thesis
    using l1 l2 p1 p2 a0 a1 a2 f unfolding z0_def z2_def z3_def by blast
qed

text \<open>
  C8. The lexer of the parser path is total: \<^verbatim>\<open>Lexer(text)\<close> raises nothing for any
  text, and every token of the result has kind \<^verbatim>\<open>NUMBER\<close>, \<^verbatim>\<open>ID\<close> or one of the
  six operator characters; a number or identifier carries a text that its pattern matches
  in full, and an operator token carries its own character, so no other character
  reaches the token list.
\<close>

theorem Lexer_never_fails:
  "\<exists>lx. Lexer text = Inr lx \<and> pos lx = 0 \<and>
     (\<forall>tok \<in> set (tokens lx).
        fst tok \<in> {''NUMBER'', ''ID'', ''+'', ''-'', ''*'', ''/'', ''('', '')''} \<and>
        (fst tok = ''NUMBER'' \<longrightarrow> number_match (snd tok) = Some (snd tok, [])) \<and>
        (fst tok = ''ID'' \<longrightarrow> ident_match (snd tok) = Some (snd tok, [])) \<and>
        (fst tok \<noteq> ''NUMBER'' \<and> fst tok \<noteq> ''ID'' \<longrightarrow> snd tok = fst tok))"
proof -
  have "\<And>tok. tok \<in> set (token_seq text) \<Longrightarrow>
        fst tok \<in> {''NUMBER'', ''ID'', ''+'', ''-'', ''*'', ''/'', ''('', '')''} \<and>
        (fst tok = ''NUMBER'' \<longrightarrow> number_match (snd tok) = Some (snd tok, [])) \<and>
        (fst tok = ''ID'' \<longrightarrow> ident_match (snd tok) = Some (snd tok, [])) \<and>
        (fst tok \<noteq> ''NUMBER'' \<and> fst tok \<noteq> ''ID'' \<longrightarrow> snd tok = fst tok)"
  proof -
    fix tok
    assume "tok \<in> set (token_seq text)"
    then have lt: "lexer_token tok" by (rule token_seq_lexer_token)
    then have "fst tok \<in> {''NUMBER'', ''ID'', ''+'', ''-'', ''*'', ''/'', ''('', '')''}"
      by (rule lexer_token_kind)
    then show "fst tok \<in> {''NUMBER'', ''ID'', ''+'', ''-'', ''*'', ''/'', ''('', '')''} \<and>
        (fst tok = ''NUMBER'' \<longrightarrow> number_match (snd tok) = Some (snd tok, [])) \<and>
        (fst tok = ''ID'' \<longrightarrow> ident_match (snd tok) = Some (snd tok, [])) \<and>
        (fst tok \<noteq> ''NUMBER'' \<and> fst tok \<noteq> ''ID'' \<longrightarrow> snd tok = fst tok)"
      using lt by (auto simp: lexer_token_def)
  qed
  then show ?thesis by (simp add: Lexer_total)
qed

theorem Lexer_never_fails_witness:
  "Lexer ''3 + x$'' =
     Inr \<lparr>tokens = [(''NUMBER'', ''3''), (''+'', ''+''), (''ID'', ''x'')], pos = 0\<rparr>
   \<and> number_match ''3'' = Some (''3'', [])
   \<and> ident_match ''x'' = Some (''x'', [])"
proof -
  have l: "Lexer ''3 + x$'' =
      Inr \<lparr>tokens = [(''NUMBER'', ''3''), (''+'', ''+''), (''ID'', ''x'')], pos = 0\<rparr>"
    by code_simp
  show ?thesis
    using Lexer_never_fails [of "''3 + x$''"] unfolding l by simp
qed

text \<open>
  C3. Whenever a parse reaches a factor position whose token is \<^verbatim>\<open>(\<close>, the enclosed
  expression is parsed, and the token after it is not \<^verbatim>\<open>)\<close>,
  \<^verbatim>\<open>parse_expression\<close> raises the \<^verbatim>\<open>SyntaxError\<close> of the missing closing
  parenthesis; \<^verbatim>\<open>parse_expression("(a + b")\<close> does.
\<close>

theorem missing_paren_raises:
  "(Lexer text = Inr lx0 \<longrightarrow> calls\<^sup>*\<^sup>* (Call_E lx0) (Call_F lx) \<longrightarrow>
      fst (peek lx) = ''('' \<longrightarrow> E (snd (next_tok lx)) = Inr (node, lx2) \<longrightarrow>
      fst (peek lx2) \<noteq> '')'' \<longrightarrow>
      parse_expression text = Inl (SyntaxError Faltando_paren))
   \<and> parse_expression ''(a + b'' = Inl (SyntaxError Faltando_paren)"
proof
  show "Lexer text = Inr lx0 \<longrightarrow> calls\<^sup>*\<^sup>* (Call_E lx0) (Call_F lx) \<longrightarrow>
      fst (peek lx) = ''('' \<longrightarrow> E (snd (next_tok lx)) = Inr (node, lx2) \<longrightarrow>
      fst (peek lx2) \<noteq> '')'' \<longrightarrow>
      parse_expression text = Inl (SyntaxError Faltando_paren)"
  proof (intro impI)
    assume l: "Lexer text = Inr lx0"
      and c: "calls\<^sup>*\<^sup>* (Call_E lx0) (Call_F lx)"
      and p: "fst (peek lx) = ''(''"
      and e: "E (snd (next_tok lx)) = Inr (node, lx2)"
      and n: "fst (peek lx2) \<noteq> '')''"
    have "F lx = Inl (SyntaxError Faltando_paren)"
      using F_paren [OF p] e n by simp
    then have "result (Call_F lx) = Inl (SyntaxError Faltando_paren)" by simp
    then have "result (Call_E lx0) = Inl (SyntaxError Faltando_paren)"
      using c by (rule calls_star_error [rotated])
    then show "parse_expression text = Inl (SyntaxError Faltando_paren)"
      using l by (simp add: parse_expression_error)
  qed
  show "parse_expression ''(a + b'' = Inl (SyntaxError Faltando_paren)"
    by code_simp
qed

theorem missing_paren_raises_witness:
  "Lexer ''2 * (a + b'' =
     Inr \<lparr>tokens = [(''NUMBER'', ''2''), (''*'', ''*''), (''('', ''(''), (''ID'', ''a''),
                     (''+'', ''+''), (''ID'', ''b'')], pos = 0\<rparr>
   \<and> calls\<^sup>*\<^sup>*
        (Call_E \<lparr>tokens = [(''NUMBER'', ''2''), (''*'', ''*''), (''('', ''(''), (''ID'', ''a''),
                     (''+'', ''+''), (''ID'', ''b'')], pos = 0\<rparr>)
        (Call_F \<lparr>tokens = [(''NUMBER'', ''2''), (''*'', ''*''), (''('', ''(''), (''ID'', ''a''),
                     (''+'', ''+''), (''ID'', ''b'')], pos = 2\<rparr>)
   \<and> fst (peek \<lparr>tokens = [(''NUMBER'', ''2''), (''*'', ''*''), (''('', ''(''), (''ID'', ''a''),
                     (''+'', ''+''), (''ID'', ''b'')], pos = 2\<rparr>) = ''(''
   \<and> E (snd (next_tok \<lparr>tokens = [(''NUMBER'', ''2''), (''*'', ''*''), (''('', ''(''),
                     (''ID'', ''a''), (''+'', ''+''), (''ID'', ''b'')], pos = 2\<rparr>)) =
       Inr (BINOP ''+'' (Leaf ''ID'' ''a'') (Leaf ''ID'' ''b''),
            \<lparr>tokens = [(''NUMBER'', ''2''), (''*'', ''*''), (''('', ''(''), (''ID'', ''a''),
                     (''+'', ''+''), (''ID'', ''b'')], pos = 6\<rparr>)
   \<and> fst (peek \<lparr>tokens = [(''NUMBER'', ''2''), (''*'', ''*''), (''('', ''(''), (''ID'', ''a''),
                     (''+'', ''+''), (''ID'', ''b'')], pos = 6\<rparr>) \<noteq> '')''
   \<and> parse_expression ''2 * (a + b'' = Inl (SyntaxError Faltando_paren)"
proof -
  define toks where "toks = [(''NUMBER'', ''2''), (''*'', ''*''), (''('', ''(''), (''ID'', ''a''),
                     (''+'', ''+''), (''ID'', ''b'')]"
  define lx0 where "lx0 = \<lparr>tokens = toks, pos = 0\<rparr>"
  define lx1 where "lx1 = \<lparr>tokens = toks, pos = 1\<rparr>"
  define lx2 where "lx2 = \<lparr>tokens = toks, pos = 2\<rparr>"
  define lx6 where "lx6 = \<lparr>tokens = toks, pos = 6\<rparr>"
  have l: "Lexer ''2 * (a + b'' = Inr lx0"
    unfolding lx0_def toks_def by code_simp
  have f0: "F lx0 = Inr (Leaf ''NUMBER'' ''2'', lx1)"
    unfolding lx0_def lx1_def toks_def by code_simp
  have p1: "fst (peek lx1) \<in> {''*'', ''/''}"
    unfolding lx1_def toks_def by code_simp
  have n1: "snd (next_tok lx1) = lx2"
    unfolding lx1_def lx2_def by simp
  have c1: "calls (Call_E lx0) (Call_T lx0)" by (rule calls.E_T)
  have c2: "calls (Call_T lx0) (Call_T_while (Leaf ''NUMBER'' ''2'') lx1)"
    using f0 by (rule calls.T_loop)
  have c3: "calls (Call_T_while (Leaf ''NUMBER'' ''2'') lx1) (Call_F lx2)"
    using calls.T_while_F [OF p1] n1 by simp
  have c: "calls\<^sup>*\<^sup>* (Call_E lx0) (Call_F lx2)"
    using c1 c2 c3 by (meson rtranclp.rtrancl_into_rtrancl rtranclp.rtrancl_refl)
  have p: "fst (peek lx2) = ''(''"
    unfolding lx2_def toks_def by code_simp
  have e: "E (snd (next_tok lx2)) = Inr (BINOP ''+'' (Leaf ''ID'' ''a'') (Leaf ''ID'' ''b''), lx6)"
    unfolding lx2_def lx6_def toks_def by code_simp
  have n: "fst (peek lx6) \<noteq> '')''"
    unfolding lx6_def toks_def by code_simp
  have "parse_expression ''2 * (a + b'' = Inl (SyntaxError Faltando_paren)"
    using missing_paren_raises [of "''2 * (a + b''" lx0 lx2
        "BINOP ''+'' (Leaf ''ID'' ''a'') (Leaf ''ID'' ''b'')" lx6] l c p e n
    by blast
  then show ?thesis
    using l c p e n unfolding lx0_def lx2_def lx6_def toks_def by blast
qed

text \<open>
  C4. Whenever a parse reaches a factor position whose token is none of \<^verbatim>\<open>(\<close>, a
  number and an identifier, \<^verbatim>\<open>parse_expression\<close> raises the \<^verbatim>\<open>SyntaxError\<close> that
  reports this token and returns no tree; the token is \<^verbatim>\<open>("EOF", "")\<close> when the
  input has ended there, as it has for the empty text.
\<close>

theorem unexpected_token_raises:
  "(Lexer text = Inr lx0 \<longrightarrow> calls\<^sup>*\<^sup>* (Call_E lx0) (Call_F lx) \<longrightarrow>
      fst (peek lx) \<notin> {''('', ''NUMBER'', ''ID''} \<longrightarrow>
      parse_expression text = Inl (SyntaxError (Token_inesperado (peek lx))))
   \<and> (Lexer text = Inr lx0 \<longrightarrow> calls\<^sup>*\<^sup>* (Call_E lx0) (Call_F lx) \<longrightarrow>
      length (tokens lx) \<le> pos lx \<longrightarrow>
      parse_expression text = Inl (SyntaxError (Token_inesperado (''EOF'', ''''))))
   \<and> parse_expression '''' = Inl (SyntaxError (Token_inesperado (''EOF'', '''')))"
proof -
  have main: "parse_expression text = Inl (SyntaxError (Token_inesperado (peek lx)))"
    if l: "Lexer text = Inr lx0" and c: "calls\<^sup>*\<^sup>* (Call_E lx0) (Call_F lx)"
      and p: "fst (peek lx) \<notin> {''('', ''NUMBER'', ''ID''}" for lx
  proof -
    have "result (Call_F lx) = Inl (SyntaxError (Token_inesperado (peek lx)))"
      using F_unexpected [OF p] by simp
    then have "result (Call_E lx0) = Inl (SyntaxError (Token_inesperado (peek lx)))"
      using c by (rule calls_star_error [rotated])
    then show ?thesis using l by (simp add: parse_expression_error)
  qed
  have eof: "parse_expression text = Inl (SyntaxError (Token_inesperado (''EOF'', '''')))"
    if l: "Lexer text = Inr lx0" and c: "calls\<^sup>*\<^sup>* (Call_E lx0) (Call_F lx)"
      and p: "length (tokens lx) \<le> pos lx"
  proof -
    have pk: "peek lx = (''EOF'', '''')" using p by (simp add: peek_def)
    then have "fst (peek lx) \<notin> {''('', ''NUMBER'', ''ID''}" by simp
    then show ?thesis using main [OF l c] pk by simp
  qed
  have "parse_expression '''' = Inl (SyntaxError (Token_inesperado (''EOF'', '''')))"
    by code_simp
  then show ?thesis using main eof by blast
qed

theorem unexpected_token_raises_witness:
  "Lexer ''a + * b'' =
     Inr \<lparr>tokens = [(''ID'', ''a''), (''+'', ''+''), (''*'', ''*''), (''ID'', ''b'')], pos = 0\<rparr>
   \<and> calls\<^sup>*\<^sup>*
        (Call_E \<lparr>tokens = [(''ID'', ''a''), (''+'', ''+''), (''*'', ''*''), (''ID'', ''b'')],
                 pos = 0\<rparr>)
        (Call_F \<lparr>tokens = [(''ID'', ''a''), (''+'', ''+''), (''*'', ''*''), (''ID'', ''b'')],
                 pos = 2\<rparr>)
   \<and> peek \<lparr>tokens = [(''ID'', ''a''), (''+'', ''+''), (''*'', ''*''), (''ID'', ''b'')],
            pos = 2\<rparr> = (''*'', ''*'')
   \<and> parse_expression ''a + * b'' = Inl (SyntaxError (Token_inesperado (''*'', ''*'')))"
proof -
  define toks where "toks = [(''ID'', ''a''), (''+'', ''+''), (''*'', ''*''), (''ID'', ''b'')]"
  define lx0 where "lx0 = \<lparr>tokens = toks, pos = 0\<rparr>"
  define lx1 where "lx1 = \<lparr>tokens = toks, pos = 1\<rparr>"
  define lx2 where "lx2 = \<lparr>tokens = toks, pos = 2\<rparr>"
  have l: "Lexer ''a + * b'' = Inr lx0"
    unfolding lx0_def toks_def by code_simp
  have t0: "T lx0 = Inr (Leaf ''ID'' ''a'', lx1)"
    unfolding lx0_def lx1_def toks_def by code_simp
  have p1: "fst (peek lx1) \<in> {''+'', ''-''}"
    unfolding lx1_def toks_def by code_simp
  have n1: "snd (next_tok lx1) = lx2"
    unfolding lx1_def lx2_def by simp
  have c1: "calls (Call_E lx0) (Call_E_while (Leaf ''ID'' ''a'') lx1)"
    using t0 by (rule calls.E_loop)
  have c2: "calls (Call_E_while (Leaf ''ID'' ''a'') lx1) (Call_T lx2)"
    using calls.E_while_T [OF p1] n1 by simp
  have c3: "calls (Call_T lx2) (Call_F lx2)" by (rule calls.T_F)
  have c: "calls\<^sup>*\<^sup>* (Call_E lx0) (Call_F lx2)"
    using c1 c2 c3 by (meson rtranclp.rtrancl_into_rtrancl rtranclp.rtrancl_refl)
  have pk: "peek lx2 = (''*'', ''*'')"
    unfolding lx2_def toks_def by code_simp
  then have p: "fst (peek lx2) \<notin> {''('', ''NUMBER'', ''ID''}" by simp
  have "parse_expression ''a + * b'' = Inl (SyntaxError (Token_inesperado (peek lx2)))"
    using unexpected_token_raises [of "''a + * b''" lx0 lx2] l c p by blast
  then show ?thesis
    using l c pk unfolding lx0_def lx2_def toks_def by simp
qed



text \<open>
  C5. After the top call of \<open>E\<close> has returned a tree, \<^verbatim>\<open>parse_expression\<close> raises the
  \<^verbatim>\<open>SyntaxError\<close> of extra input when a token is left unconsumed, and returns the
  tree when none is. \<^verbatim>\<open>parse_expression("a b")\<close> raises that error, and
  \<^verbatim>\<open>parse_expression("a +")\<close> raises the \<^verbatim>\<open>SyntaxError\<close> of an unexpected token.
\<close>

theorem trailing_input_raises:
  "(Lexer text = Inr lx0 \<longrightarrow> E lx0 = Inr (tree, lx1) \<longrightarrow> pos lx1 < length (tokens lx1) \<longrightarrow>
      parse_expression text = Inl (SyntaxError Entrada_extra))
   \<and> (Lexer text = Inr lx0 \<longrightarrow> E lx0 = Inr (tree, lx1) \<longrightarrow> length (tokens lx1) \<le> pos lx1 \<longrightarrow>
      parse_expression text = Inr tree)
   \<and> parse_expression ''a b'' = Inl (SyntaxError Entrada_extra)
   \<and> parse_expression ''a +'' = Inl (SyntaxError (Token_inesperado (''EOF'', [])))"
proof -
  have extra: "parse_expression text = Inl (SyntaxError Entrada_extra)"
    if l: "Lexer text = Inr lx0" and e: "E lx0 = Inr (tree, lx1)"
      and p: "pos lx1 < length (tokens lx1)"
  proof -
    have "tokens lx0 = token_seq text" using l by (auto simp: Lexer_total)
    moreover have "tokens lx1 = tokens lx0" using E_advances [of lx0] e by simp
    ultimately have "fst (peek lx1) \<noteq> ''EOF''"
      using p peek_Lexer_not_EOF [of lx1 "text"] by simp
    then show ?thesis using l e by (simp add: parse_expression_def)
  qed
  have fin: "parse_expression text = Inr tree"
    if l: "Lexer text = Inr lx0" and e: "E lx0 = Inr (tree, lx1)"
      and p: "length (tokens lx1) \<le> pos lx1"
  proof -
    have "peek lx1 = (''EOF'', [])" using p by (simp add: peek_def)
    then show ?thesis using l e by (simp add: parse_expression_def)
  qed
  have c1: "parse_expression ''a b'' = Inl (SyntaxError Entrada_extra)"
    by code_simp
  have c2: "parse_expression ''a +'' = Inl (SyntaxError (Token_inesperado (''EOF'', [])))"
    by code_simp
  show ?thesis using extra fin c1 c2 by blast
qed

theorem trailing_input_raises_witness:
  "Lexer ''a ) b'' =
     Inr \<lparr>tokens = [(''ID'', ''a''), ('')'', '')''), (''ID'', ''b'')], pos = 0\<rparr>
   \<and> E \<lparr>tokens = [(''ID'', ''a''), ('')'', '')''), (''ID'', ''b'')], pos = 0\<rparr> =
       Inr (Leaf ''ID'' ''a'', \<lparr>tokens = [(''ID'', ''a''), ('')'', '')''), (''ID'', ''b'')], pos = 1\<rparr>)
   \<and> parse_expression ''a ) b'' = Inl (SyntaxError Entrada_extra)
   \<and> Lexer ''7'' = Inr \<lparr>tokens = [(''NUMBER'', ''7'')], pos = 0\<rparr>
   \<and> E \<lparr>tokens = [(''NUMBER'', ''7'')], pos = 0\<rparr> =
       Inr (Leaf ''NUMBER'' ''7'', \<lparr>tokens = [(''NUMBER'', ''7'')], pos = 1\<rparr>)
   \<and> parse_expression ''7'' = Inr (Leaf ''NUMBER'' ''7'')"
proof -
  define lx0 where "lx0 = \<lparr>tokens = [(''ID'', ''a''), ('')'', '')''), (''ID'', ''b'')], pos = 0\<rparr>"
  define lx1 where "lx1 = \<lparr>tokens = [(''ID'', ''a''), ('')'', '')''), (''ID'', ''b'')], pos = 1\<rparr>"
  define ly0 where "ly0 = \<lparr>tokens = [(''NUMBER'', ''7'')], pos = 0\<rparr>"
  define ly1 where "ly1 = \<lparr>tokens = [(''NUMBER'', ''7'')], pos = 1\<rparr>"
  have l: "Lexer ''a ) b'' = Inr lx0" unfolding lx0_def by code_simp
  have e: "E lx0 = Inr (Leaf ''ID'' ''a'', lx1)" unfolding lx0_def lx1_def by code_simp
  have p: "pos lx1 < length (tokens lx1)" unfolding lx1_def by simp
  have l': "Lexer ''7'' = Inr ly0" unfolding ly0_def by code_simp
  have e': "E ly0 = Inr (Leaf ''NUMBER'' ''7'', ly1)" unfolding ly0_def ly1_def by code_simp
  have p': "length (tokens ly1) \<le> pos ly1" unfolding ly1_def by simp
  have "parse_expression ''a ) b'' = Inl (SyntaxError Entrada_extra)"
    using trailing_input_raises [of "''a ) b''" lx0 "Leaf ''ID'' ''a''" lx1] l e p by blast
  moreover have "parse_expression ''7'' = Inr (Leaf ''NUMBER'' ''7'')"
    using trailing_input_raises [of "''7''" ly0 "Leaf ''NUMBER'' ''7''" ly1] l' e' p' by blast
  ultimately show ?thesis
    using l e l' e' unfolding lx0_def lx1_def ly0_def ly1_def by blast
qed

text \<open>
  C7. The lexer gives no token for a character that is not a digit, a letter, an
  underscore, white space or one of \<^verbatim>\<open>+-*/()\<close>. The claim that the parser then
  behaves as on the text with these characters erased fails: such a character still ends
  the lexeme before it, so \<^verbatim>\<open>"a@b"\<close> has the two tokens of \<^verbatim>\<open>"a b"\<close> and not
  the one of \<^verbatim>\<open>"ab"\<close>; and a dot between digits is kept as part of the number.
\<close>

theorem erasing_changes_parse:
  "erased ''a@b'' = ''ab''
   \<and> parse_expression ''a@b'' = Inl (SyntaxError Entrada_extra)
   \<and> parse_expression (erased ''a@b'') = Inr (Leaf ''ID'' ''ab'')
   \<and> parse_expression ''a@b'' \<noteq> parse_expression (erased ''a@b'')
   \<and> erased ''1.5'' = ''15''
   \<and> parse_expression ''1.5'' = Inr (Leaf ''NUMBER'' ''1.5'')
   \<and> parse_expression (erased ''1.5'') = Inr (Leaf ''NUMBER'' ''15'')"
proof -
  have e: "erased ''a@b'' = ''ab''"
    by code_simp
  have p1: "parse_expression ''a@b'' = Inl (SyntaxError Entrada_extra)"
    by code_simp
  have p2: "parse_expression ''ab'' = Inr (Leaf ''ID'' ''ab'')"
    by code_simp
  have e': "erased ''1.5'' = ''15''"
    by code_simp
  have p3: "parse_expression ''1.5'' = Inr (Leaf ''NUMBER'' ''1.5'')"
    by code_simp
  have p4: "parse_expression ''15'' = Inr (Leaf ''NUMBER'' ''15'')"
    by code_simp
  show ?thesis unfolding e e' p1 p2 p3 p4 by simp
qed

text \<open>
  C7, amended. \<^verbatim>\<open>parse_expression\<close> behaves on any text exactly as on that text with
  every such character other than the dot replaced by a space: the lexer returns the same
  tokens, the parser the same tree or error. \<^verbatim>\<open>parse_expression("@x")\<close> returns the
  leaf of \<open>x\<close>; \<^verbatim>\<open>"a @ b"\<close> and \<^verbatim>\<open>"a@b"\<close> raise the error of extra input.
\<close>

theorem unrecognised_characters_separate:
  "Lexer (blanked text) = Lexer text
   \<and> parse_expression (blanked text) = parse_expression text
   \<and> parse_expression ''@x'' = Inr (Leaf ''ID'' ''x'')
   \<and> parse_expression ''a @ b'' = Inl (SyntaxError Entrada_extra)
   \<and> parse_expression ''a@b'' = Inl (SyntaxError Entrada_extra)"
proof -
  have l: "Lexer (blanked text) = Lexer text"
    by (simp add: Lexer_total blanked_def token_seq_blank)
  then have p: "parse_expression (blanked text) = parse_expression text"
    by (simp add: parse_expression_def)
  have c1: "parse_expression ''@x'' = Inr (Leaf ''ID'' ''x'')"
    by code_simp
  have c2: "parse_expression ''a @ b'' = Inl (SyntaxError Entrada_extra)"
    by code_simp
  have c3: "parse_expression ''a@b'' = Inl (SyntaxError Entrada_extra)"
    by code_simp
  show ?thesis using l p c1 c2 c3 by simp
qed

text \<open>
  C9. Parsing does not depend on the white space between tokens. The general claim,
  that removing white space between lexemes never changes the token sequence, fails
  where two identifiers or numbers are neighbours: \<^verbatim>\<open>"a b"\<close> has two tokens and
  \<^verbatim>\<open>"ab"\<close> one.
\<close>

theorem removing_space_merges_lexemes:
  "layout [([], ''a''), ('' '', ''b'')] [] = ''a b''
   \<and> layout [([], ''a''), ([], ''b'')] [] = ''ab''
   \<and> Lexer ''a b'' = Inr \<lparr>tokens = [(''ID'', ''a''), (''ID'', ''b'')], pos = 0\<rparr>
   \<and> Lexer ''ab'' = Inr \<lparr>tokens = [(''ID'', ''ab'')], pos = 0\<rparr>
   \<and> Lexer ''a b'' \<noteq> Lexer ''ab''
   \<and> parse_expression ''a b'' \<noteq> parse_expression ''ab''"
proof -
  have l1: "Lexer ''a b'' = Inr \<lparr>tokens = [(''ID'', ''a''), (''ID'', ''b'')], pos = 0\<rparr>"
    by code_simp
  have l2: "Lexer ''ab'' = Inr \<lparr>tokens = [(''ID'', ''ab'')], pos = 0\<rparr>"
    by code_simp
  have p1: "parse_expression ''a b'' = Inl (SyntaxError Entrada_extra)"
    by code_simp
  have p2: "parse_expression ''ab'' = Inr (Leaf ''ID'' ''ab'')"
    by code_simp
  show ?thesis unfolding l1 l2 p1 p2 by simp
qed

text \<open>
  C9, amended. A well laid text of lexemes gives exactly the tokens of its lexemes,
  whatever the amounts of white space; two well laid texts of the same lexemes give the
  same tokens and the same parse. \<^verbatim>\<open>parse_expression("a+b")\<close> and
  \<^verbatim>\<open>parse_expression("  a   +   b  ")\<close> return the same tree.
\<close>

theorem whitespace_between_lexemes:
  "(well_laid xs e \<longrightarrow>
      Lexer (layout xs e) = Inr \<lparr>tokens = map (token_of \<circ> snd) xs, pos = 0\<rparr>)
   \<and> (well_laid xs e \<longrightarrow> well_laid ys f \<longrightarrow> map snd xs = map snd ys \<longrightarrow>
      Lexer (layout xs e) = Lexer (layout ys f)
      \<and> parse_expression (layout xs e) = parse_expression (layout ys f))
   \<and> parse_expression ''a+b'' = Inr (BINOP ''+'' (Leaf ''ID'' ''a'') (Leaf ''ID'' ''b''))
   \<and> parse_expression ''  a   +   b  '' =
       Inr (BINOP ''+'' (Leaf ''ID'' ''a'') (Leaf ''ID'' ''b''))"
proof -
  have lay: "Lexer (layout xs e) = Inr \<lparr>tokens = map (token_of \<circ> snd) xs, pos = 0\<rparr>"
    if "well_laid xs e" for xs e
    using that by (simp add: Lexer_total token_seq_layout)
  have same: "Lexer (layout xs e) = Lexer (layout ys f)
      \<and> parse_expression (layout xs e) = parse_expression (layout ys f)"
    if "well_laid xs e" "well_laid ys f" "map snd xs = map snd ys"
  proof -
    have "map (token_of \<circ> snd) xs = map token_of (map snd xs)" by simp
    also have "\<dots> = map (token_of \<circ> snd) ys" using that(3) by simp
    finally have "Lexer (layout xs e) = Lexer (layout ys f)"
      using lay [OF that(1)] lay [OF that(2)] by simp
    then show ?thesis by (simp add: parse_expression_def)
  qed
  have c1: "parse_expression ''a+b'' = Inr (BINOP ''+'' (Leaf ''ID'' ''a'') (Leaf ''ID'' ''b''))"
    by code_simp
  have c2: "parse_expression ''  a   +   b  '' =
       Inr (BINOP ''+'' (Leaf ''ID'' ''a'') (Leaf ''ID'' ''b''))"
    by code_simp
  show ?thesis using lay same c1 c2 by blast
qed

theorem whitespace_between_lexemes_witness:
  "well_laid [([], ''x1''), ([], ''*''), ([], ''(''), ([], ''2.5''), ([], ''-''), ([], ''y''),
              ([], '')'')] []
   \<and> well_laid [('' '', ''x1''), (''  '', ''*''), ([], ''(''), ('' '', ''2.5''), ([], ''-''),
                ('' '', ''y''), ('' '', '')'')] ''  ''
   \<and> layout [([], ''x1''), ([], ''*''), ([], ''(''), ([], ''2.5''), ([], ''-''), ([], ''y''),
             ([], '')'')] [] = ''x1*(2.5-y)''
   \<and> layout [('' '', ''x1''), (''  '', ''*''), ([], ''(''), ('' '', ''2.5''), ([], ''-''),
             ('' '', ''y''), ('' '', '')'')] ''  '' = '' x1  *( 2.5- y )  ''
   \<and> Lexer ''x1*(2.5-y)'' =
       Inr \<lparr>tokens = [(''ID'', ''x1''), (''*'', ''*''), (''('', ''(''), (''NUMBER'', ''2.5''),
                       (''-'', ''-''), (''ID'', ''y''), ('')'', '')'')], pos = 0\<rparr>
   \<and> Lexer ''x1*(2.5-y)'' = Lexer '' x1  *( 2.5- y )  ''
   \<and> parse_expression ''x1*(2.5-y)'' = parse_expression '' x1  *( 2.5- y )  ''"
proof -
  define xs where "xs = [([], ''x1''), ([], ''*''), ([], ''(''), ([], ''2.5''), ([], ''-''),
      ([], ''y''), ([] :: string, '')'')]"
  define ys where "ys = [('' '', ''x1''), (''  '', ''*''), ([], ''(''), ('' '', ''2.5''),
      ([], ''-''), ('' '', ''y''), ('' '', '')'')]"
  have wx: "well_laid xs []" unfolding xs_def by code_simp
  have wy: "well_laid ys ''  ''" unfolding ys_def by code_simp
  have lx: "layout xs [] = ''x1*(2.5-y)''" unfolding xs_def by simp
  have ly: "layout ys ''  '' = '' x1  *( 2.5- y )  ''" unfolding ys_def by simp
  have sn: "map snd xs = map snd ys" unfolding xs_def ys_def by simp
  have tk: "map (token_of \<circ> snd) xs =
      [(''ID'', ''x1''), (''*'', ''*''), (''('', ''(''), (''NUMBER'', ''2.5''),
       (''-'', ''-''), (''ID'', ''y''), ('')'', '')'')]"
    unfolding xs_def by code_simp
  have "Lexer (layout xs []) = Inr \<lparr>tokens = map (token_of \<circ> snd) xs, pos = 0\<rparr>"
    using whitespace_between_lexemes [of xs "[]"] wx by blast
  then have a: "Lexer ''x1*(2.5-y)'' =
       Inr \<lparr>tokens = [(''ID'', ''x1''), (''*'', ''*''), (''('', ''(''), (''NUMBER'', ''2.5''),
                       (''-'', ''-''), (''ID'', ''y''), ('')'', '')'')], pos = 0\<rparr>"
    unfolding lx tk .
  have "Lexer (layout xs []) = Lexer (layout ys ''  '')
      \<and> parse_expression (layout xs []) = parse_expression (layout ys ''  '')"
    using whitespace_between_lexemes [of xs "[]" ys "''  ''"] wx wy sn by blast
  then have b: "Lexer ''x1*(2.5-y)'' = Lexer '' x1  *( 2.5- y )  ''
      \<and> parse_expression ''x1*(2.5-y)'' = parse_expression '' x1  *( 2.5- y )  ''"
    unfolding lx ly .
  show ?thesis
    using wx wy lx ly a b unfolding xs_def ys_def by blast
qed

text \<open>
  C10. \<^verbatim>\<open>parse_expression\<close> is deterministic. In the model with a store of lexer
  objects, a call in any world returns what the function of the text alone returns; the
  second of two calls one after the other runs in the world the first has left, with the
  first object still there at its last position, works on a new object and returns the
  same result, the same tree for a text that parses.
\<close>

theorem parse_expression_deterministic:
  "(parse_expression_st text w = (r1, w1) \<longrightarrow> parse_expression_st text w1 = (r2, w2) \<longrightarrow>
      r1 = r2 \<and> r1 = parse_expression text \<and> fresh w1 = Suc (fresh w))
   \<and> fst (parse_expression_st text w) = fst (parse_expression_st text w')
   \<and> (parse_expression text = Inr tree \<longrightarrow>
        parse_expression_st text w = (r1, w1) \<longrightarrow> parse_expression_st text w1 = (r2, w2) \<longrightarrow>
        r1 = Inr tree \<and> r2 = Inr tree)"
proof -
  have a: "r1 = parse_expression text \<and> r2 = parse_expression text \<and> fresh w1 = Suc (fresh w)"
    if "parse_expression_st text w = (r1, w1)" "parse_expression_st text w1 = (r2, w2)"
    using that parse_expression_st_result [of "text" w] parse_expression_st_result [of "text" w1]
      parse_expression_st_fresh [of "text" w]
    by simp
  have b: "fst (parse_expression_st text w) = fst (parse_expression_st text w')"
    by (simp add: parse_expression_st_result)
  show ?thesis using a b by auto
qed

theorem parse_expression_deterministic_witness:
  "parse_expression ''a + b * c'' =
     Inr (BINOP ''+'' (Leaf ''ID'' ''a'') (BINOP ''*'' (Leaf ''ID'' ''b'') (Leaf ''ID'' ''c'')))
   \<and> fst (parse_expression_st ''a + b * c'' \<lparr>objs = (\<lambda>a. \<lparr>tokens = [], pos = 0\<rparr>), fresh = 0\<rparr>) =
     Inr (BINOP ''+'' (Leaf ''ID'' ''a'') (BINOP ''*'' (Leaf ''ID'' ''b'') (Leaf ''ID'' ''c'')))
   \<and> fst (parse_expression_st ''a + b * c''
          (snd (parse_expression_st ''a + b * c''
                 \<lparr>objs = (\<lambda>a. \<lparr>tokens = [], pos = 0\<rparr>), fresh = 0\<rparr>))) =
     Inr (BINOP ''+'' (Leaf ''ID'' ''a'') (BINOP ''*'' (Leaf ''ID'' ''b'') (Leaf ''ID'' ''c'')))
   \<and> pos (objs (snd (parse_expression_st ''a + b * c''
                 \<lparr>objs = (\<lambda>a. \<lparr>tokens = [], pos = 0\<rparr>), fresh = 0\<rparr>)) 0) = 5
   \<and> fresh (snd (parse_expression_st ''a + b * c''
                 \<lparr>objs = (\<lambda>a. \<lparr>tokens = [], pos = 0\<rparr>), fresh = 0\<rparr>)) = 1"
proof -
  define w0 where "w0 = \<lparr>objs = (\<lambda>a. \<lparr>tokens = [], pos = 0\<rparr>), fresh = 0\<rparr>"
  define r1 where "r1 = fst (parse_expression_st ''a + b * c'' w0)"
  define w1 where "w1 = snd (parse_expression_st ''a + b * c'' w0)"
  define r2 where "r2 = fst (parse_expression_st ''a + b * c'' w1)"
  define w2 where "w2 = snd (parse_expression_st ''a + b * c'' w1)"
  have p: "parse_expression ''a + b * c'' =
     Inr (BINOP ''+'' (Leaf ''ID'' ''a'') (BINOP ''*'' (Leaf ''ID'' ''b'') (Leaf ''ID'' ''c'')))"
    by code_simp
  have h1: "parse_expression_st ''a + b * c'' w0 = (r1, w1)" by (simp add: r1_def w1_def)
  have h2: "parse_expression_st ''a + b * c'' w1 = (r2, w2)" by (simp add: r2_def w2_def)
  have "r1 = Inr (BINOP ''+'' (Leaf ''ID'' ''a'') (BINOP ''*'' (Leaf ''ID'' ''b'') (Leaf ''ID'' ''c'')))
      \<and> r2 = Inr (BINOP ''+'' (Leaf ''ID'' ''a'') (BINOP ''*'' (Leaf ''ID'' ''b'') (Leaf ''ID'' ''c'')))"
    using parse_expression_deterministic [of "''a + b * c''" w0 r1 w1 r2 w2] p h1 h2 by blast
  moreover have "pos (objs w1 0) = 5" unfolding w1_def w0_def by code_simp
  moreover have "fresh w1 = 1" unfolding w1_def w0_def by code_simp
  ultimately show ?thesis
    using p unfolding r1_def r2_def w1_def w0_def by simp
qed

end
